theory Spec2Isabelle
  imports Main "HOL-Library.Word"
begin

section \<open>The Elasticsearch bulk visibility processor\<close>

text \<open>
  A shallow embedding of \<^verbatim>\<open>processorImpl\<close> (package elasticsearch, the bulk
  processor agent of the visibility store): its lifecycle (\<^verbatim>\<open>Start\<close>, \<^verbatim>\<open>Stop\<close>),
  request admission with de-duplication (\<^verbatim>\<open>Add\<close>), the two commit hooks
  (\<^verbatim>\<open>bulkBeforeAction\<close>, \<^verbatim>\<open>bulkAfterAction\<close>), key extraction, response
  classification and the acknowledgement channel.

  Go values that live on the heap and are shared through pointers (the \<^verbatim>\<open>ackChan\<close>
  structs held by the map, the channels they point to) are kept in explicit stores, so that
  the in-place overwrite a duplicate \<^verbatim>\<open>Add\<close> performs is visible. Every way a Go function
  can fail to return is a value of the type \<open>outcome\<close>.
\<close>

subsection \<open>Outcomes\<close>

text \<open>
  \<open>Ret\<close> is a normal return. \<open>Panic\<close> is a Go run-time panic (nil dereference, failed
  unchecked type assertion, index out of range, division by zero). \<open>Fatal\<close> is a call of
  \<^verbatim>\<open>logger.Fatal\<close>. \<open>Blocked\<close> is a send on a channel whose buffer is full.
\<close>

datatype 'a outcome = Ret 'a | Panic | Fatal | Blocked

subsection \<open>Library functions the processor calls\<close>

text \<open>
  Values of Go's \<^verbatim>\<open>interface{}\<close> produced by the JSON decoder.
\<close>

datatype json = JNull | JBool bool | JNumber int | JString string
  | JArray "json list" | JObject "(string \<times> json) list"

text \<open>
  Functions of other packages are parameters of the model, collected in one record:
  \<^item> \<open>Hash32\<close> is \<^verbatim>\<open>farm.Hash32\<close>;
  \<^item> \<open>IsRetryableError\<close> and \<open>IsRetryableStatus\<close> are the classifiers of the
    Elasticsearch client package (top-level errors are represented by their message);
  \<^item> \<open>UnmarshalBody\<close> is \<^verbatim>\<open>json.Unmarshal\<close> into a \<^verbatim>\<open>map[string]interface{}\<close>
    and \<open>UnmarshalAction\<close> is \<^verbatim>\<open>json.Unmarshal\<close> into a
    \<^verbatim>\<open>map[string]map[string]interface{}\<close>; \<open>None\<close> is a decoding error. The outer
    map of an action line is given as the list of its entries in the order in which the
    \<^verbatim>\<open>range\<close> loop of \<^verbatim>\<open>extractDocID\<close> visits them.
\<close>

record env =
  Hash32 :: "string \<Rightarrow> 32 word"
  IsRetryableError :: "string \<Rightarrow> bool"
  IsRetryableStatus :: "int \<Rightarrow> bool"
  UnmarshalBody :: "string \<Rightarrow> (string \<rightharpoonup> json) option"
  UnmarshalAction :: "string \<Rightarrow> (string \<times> (string \<rightharpoonup> json)) list option"

subsection \<open>Bulk response items and their classification\<close>

record ErrorDetails =
  Type :: string
  Reason :: string

text \<open>
  \<^verbatim>\<open>elastic.BulkResponseItem\<close>: the document id, the HTTP status (a Go \<^verbatim>\<open>int\<close>) and the
  \<^verbatim>\<open>Error\<close> pointer, which is \<open>None\<close> when nil.
\<close>

record BulkResponseItem =
  item_Id :: string
  Status :: int
  Error :: "ErrorDetails option"

definition isSuccess :: "BulkResponseItem \<Rightarrow> bool" where
  "isSuccess item =
     (if Status item \<ge> 200 \<and> Status item < 300 then True
      else if Status item = 409 then True
      else if Status item = 404 then
        (if Error item \<noteq> None \<and> Type (the (Error item)) = ''index_not_found_exception''
         then False else True)
      else False)"

definition extractErrorReason :: "BulkResponseItem \<Rightarrow> string" where
  "extractErrorReason resp = (case Error resp of Some e \<Rightarrow> Reason e | None \<Rightarrow> [])"

subsection \<open>The response index\<close>

text \<open>
  \<^verbatim>\<open>elastic.BulkResponse\<close>: \<^verbatim>\<open>Items\<close> is a slice of maps from the operation name to the
  item; each map is given as the list of its entries in the order of the inner
  \<^verbatim>\<open>range\<close> loop. Item pointers are not nil.
\<close>

record BulkResponse =
  Items :: "(string \<times> BulkResponseItem) list list"

text \<open>
  The body of the inner loop of \<^verbatim>\<open>buildResponseIndex\<close>.
\<close>

definition put_item ::
  "(string \<rightharpoonup> BulkResponseItem) \<Rightarrow> BulkResponseItem \<Rightarrow> (string \<rightharpoonup> BulkResponseItem)" where
  "put_item result responseItem =
     (case result (item_Id responseItem) of
        None \<Rightarrow> result(item_Id responseItem \<mapsto> responseItem)
      | Some existingResponseItem \<Rightarrow>
          if Status existingResponseItem < Status responseItem
          then result(item_Id responseItem \<mapsto> responseItem)
          else result)"

definition buildResponseIndex :: "BulkResponse \<Rightarrow> (string \<rightharpoonup> BulkResponseItem)" where
  "buildResponseIndex response =
     foldl (\<lambda>result operationResponseItemMap.
              foldl (\<lambda>r entry. put_item r (snd entry)) result operationResponseItemMap)
           Map.empty (Items response)"

text \<open>
  All items of a response, in the order in which the loops visit them.
\<close>

definition all_items :: "BulkResponse \<Rightarrow> BulkResponseItem list" where
  "all_items response = map snd (concat (Items response))"

subsection \<open>Requests\<close>

text \<open>
  An \<^verbatim>\<open>elastic.BulkableRequest\<close> is used through \<^verbatim>\<open>Source()\<close> only, which returns
  the lines of the request or an error (\<open>Inl\<close>, with its message). The request handed
  to \<^verbatim>\<open>Add\<close> is an \<^verbatim>\<open>esclient.BulkableRequest\<close>, of which the processor reads the
  document id and the document.
\<close>

record elastic_BulkableRequest =
  Source :: "string + string list"

record esclient_BulkableRequest =
  ID :: string
  Doc :: "(string \<times> json) list"

text \<open>
  Modelled from the spec: the constant \<^verbatim>\<open>searchattribute.VisibilityTaskKey\<close>, the name of
  the well-known field \<^verbatim>\<open>VisibilityTaskKey\<close>.
\<close>

definition VisibilityTaskKey :: string where
  "VisibilityTaskKey = ''VisibilityTaskKey''"

subsection \<open>Metrics\<close>

datatype metric =
    ElasticsearchBulkProcessorRequests
  | ElasticsearchBulkProcessorBulkSize
  | ElasticsearchBulkProcessorWaitLatency
  | ElasticsearchBulkProcessorRequestLatency
  | ElasticsearchBulkProcessorCommitLatency
  | ElasticsearchBulkProcessorFailures
  | ElasticsearchBulkProcessorCorruptedData
  | ElasticsearchBulkProcessorRetries

text \<open>
  The metrics client keeps a value for every counter and the recorded samples of timers
  and distributions.
\<close>

record metricsClient =
  counters :: "metric \<Rightarrow> int"
  samples :: "(metric \<times> int) list"

definition AddCounter :: "metric \<Rightarrow> int \<Rightarrow> metricsClient \<Rightarrow> metricsClient" where
  "AddCounter c n mc = mc\<lparr>counters := (counters mc)(c := counters mc c + n)\<rparr>"

definition IncCounter :: "metric \<Rightarrow> metricsClient \<Rightarrow> metricsClient" where
  "IncCounter c mc = AddCounter c 1 mc"

definition RecordTimer :: "metric \<Rightarrow> int \<Rightarrow> metricsClient \<Rightarrow> metricsClient" where
  "RecordTimer c d mc = mc\<lparr>samples := samples mc @ [(c, d)]\<rparr>"

definition RecordDistribution :: "metric \<Rightarrow> int \<Rightarrow> metricsClient \<Rightarrow> metricsClient" where
  "RecordDistribution c d mc = mc\<lparr>samples := samples mc @ [(c, d)]\<rparr>"

subsection \<open>Channels and acknowledgement tickets\<close>

text \<open>
  A buffered \<^verbatim>\<open>chan bool\<close>: its capacity, every value sent into it so far and the
  number of values its reader has taken out. The buffer holds the values sent and not yet
  received; a send on a full buffer does not return.
\<close>

record chan =
  capacity :: nat
  sent :: "bool list"
  received :: nat

definition make_chan :: "nat \<Rightarrow> chan" where
  "make_chan n = \<lparr>capacity = n, sent = [], received = 0\<rparr>"

definition chan_send :: "chan \<Rightarrow> bool \<Rightarrow> chan option" where
  "chan_send ch v =
     (if length (sent ch) - received ch < capacity ch
      then Some (ch\<lparr>sent := sent ch @ [v]\<rparr>) else None)"

definition chan_recv :: "chan \<Rightarrow> (bool \<times> chan) option" where
  "chan_recv ch =
     (if received ch < length (sent ch)
      then Some (sent ch ! received ch, ch\<lparr>received := Suc (received ch)\<rparr>) else None)"

text \<open>
  \<^verbatim>\<open>ackChan\<close>: the channel (its index in the channel store) and the two instants.
  Instants are natural numbers and \<open>0\<close> is the zero \<^verbatim>\<open>time.Time\<close>.
\<close>

record ackChan =
  ackChInternal :: nat
  addedAt :: nat
  startedAt :: nat

subsection \<open>The processor\<close>

text \<open>
  Modelled from the spec: the status constants of package \<^verbatim>\<open>common\<close>, three distinct
  values of the \<^verbatim>\<open>int32\<close> status field (initialized, started, stopped).
\<close>

datatype daemon_status = DaemonStatusInitialized | DaemonStatusStarted | DaemonStatusStopped

text \<open>
  The fields of \<^verbatim>\<open>processorImpl\<close> that change or are read by the functions below,
  followed by the two stores: \<open>ackChans\<close> holds the \<^verbatim>\<open>ackChan\<close> structs (a
  \<^verbatim>\<open>*ackChan\<close> is an index into it) and \<open>chans\<close> the channels. The map is \<open>None\<close>
  when the field is nil and otherwise maps a key to the pointer stored under it. The bulk
  processor is \<open>None\<close> when nil and otherwise the requests handed to it so far.
\<close>

record processorImpl =
  status :: daemon_status
  bulkProcessor :: "esclient_BulkableRequest list option"
  mapToAckChan :: "(string \<rightharpoonup> nat) option"
  metricsClient :: metricsClient
  indexerConcurrency :: "32 word"
  ackChans :: "ackChan list"
  chans :: "chan list"

fun obind :: "'a outcome \<Rightarrow> ('a \<Rightarrow> 'b outcome) \<Rightarrow> 'b outcome" where
  "obind (Ret x) f = f x"
| "obind Panic f = Panic"
| "obind Fatal f = Fatal"
| "obind Blocked f = Blocked"

text \<open>
  \<^verbatim>\<open>NewProcessor\<close>: the configured concurrency is a Go \<^verbatim>\<open>int\<close>, converted to
  \<^verbatim>\<open>uint32\<close>.
\<close>

definition NewProcessor :: "int \<Rightarrow> metricsClient \<Rightarrow> processorImpl" where
  "NewProcessor cfgIndexerConcurrency mc =
     \<lparr>status = DaemonStatusInitialized, bulkProcessor = None, mapToAckChan = None,
      metricsClient = mc, indexerConcurrency = word_of_int cfgIndexerConcurrency,
      ackChans = [], chans = []\<rparr>"

text \<open>
  \<^verbatim>\<open>atomic.CompareAndSwapInt32\<close> on the status field: whether the swap took place, and
  the processor after it. The processor it returns is the state other goroutines see while
  the caller has not yet run the statements that follow the swap.
\<close>

definition CompareAndSwapStatus ::
  "processorImpl \<Rightarrow> daemon_status \<Rightarrow> daemon_status \<Rightarrow> bool \<times> processorImpl" where
  "CompareAndSwapStatus p old new =
     (if status p = old then (True, p\<lparr>status := new\<rparr>) else (False, p))"

text \<open>
  \<^verbatim>\<open>Start\<close>: \<open>runFails\<close> tells whether \<^verbatim>\<open>RunBulkProcessor\<close> returns an error. The
  new map is empty; the size passed to its constructor (1024) has no effect on its contents.
\<close>

definition Start :: "processorImpl \<Rightarrow> bool \<Rightarrow> processorImpl outcome" where
  "Start p runFails =
     (case CompareAndSwapStatus p DaemonStatusInitialized DaemonStatusStarted of
        (swapped, p1) \<Rightarrow>
          if \<not> swapped then Ret p1
          else let p2 = p1\<lparr>mapToAckChan := Some Map.empty\<rparr>
               in if runFails then Fatal else Ret (p2\<lparr>bulkProcessor := Some []\<rparr>))"

text \<open>
  \<^verbatim>\<open>Stop\<close>: \<open>stopFails\<close> tells whether the bulk processor's \<^verbatim>\<open>Stop\<close> returns an error.
\<close>

definition Stop :: "processorImpl \<Rightarrow> bool \<Rightarrow> processorImpl outcome" where
  "Stop p stopFails =
     (case CompareAndSwapStatus p DaemonStatusStarted DaemonStatusStopped of
        (swapped, p1) \<Rightarrow>
          if \<not> swapped then Ret p1
          else (case bulkProcessor p1 of
                  None \<Rightarrow> Panic
                | Some q \<Rightarrow>
                    if stopFails then Fatal
                    else Ret (p1\<lparr>mapToAckChan := None, bulkProcessor := None\<rparr>)))"

text \<open>
  \<^verbatim>\<open>hashFn\<close> takes an \<^verbatim>\<open>interface{}\<close>: a string or something else. The remainder of a
  division by zero panics.
\<close>

datatype go_key = KString string | KOther

definition hashFn :: "env \<Rightarrow> processorImpl \<Rightarrow> go_key \<Rightarrow> 32 word outcome" where
  "hashFn e p key =
     (case key of
        KOther \<Rightarrow> Ret 0
      | KString ident \<Rightarrow>
          if indexerConcurrency p = 0 then Panic
          else Ret (Hash32 e ident mod indexerConcurrency p))"

subsection \<open>The concurrent map\<close>

text \<open>
  Modelled from the spec: \<^verbatim>\<open>collection.ConcurrentTxMap\<close> is not part of the sources at
  hand; its three compound operations follow the description of the sharded map
  (\<^verbatim>\<open>put_or_do\<close>, \<^verbatim>\<open>get_and_do\<close>, \<^verbatim>\<open>remove_if\<close>). Each is one atomic step. A call
  through the nil map panics. Each operation first selects the stripe of the key with the
  hash function the map was created with, \<^verbatim>\<open>p.hashFn\<close>; the stripe only decides which
  lock is taken, but the call fails when \<^verbatim>\<open>hashFn\<close> does. The callback receives the key
  and the stored pointer and works on the stores; the map's values are \<^verbatim>\<open>*ackChan\<close>
  pointers by type, so the callbacks' checked type assertion always succeeds.
\<close>

definition PutOrDo ::
  "env \<Rightarrow> processorImpl \<Rightarrow> string \<Rightarrow> nat
     \<Rightarrow> (string \<Rightarrow> nat \<Rightarrow> processorImpl \<Rightarrow> processorImpl outcome)
     \<Rightarrow> (bool \<times> processorImpl) outcome" where
  "PutOrDo e p key v fn =
     (case mapToAckChan p of
        None \<Rightarrow> Panic
      | Some m \<Rightarrow>
          obind (hashFn e p (KString key))
            (\<lambda>stripe.
               case m key of
                 None \<Rightarrow> Ret (False, p\<lparr>mapToAckChan := Some (m(key \<mapsto> v))\<rparr>)
               | Some existing \<Rightarrow> obind (fn key existing p) (\<lambda>p'. Ret (True, p'))))"

definition GetAndDo ::
  "env \<Rightarrow> processorImpl \<Rightarrow> string
     \<Rightarrow> (string \<Rightarrow> nat \<Rightarrow> processorImpl \<Rightarrow> processorImpl outcome)
     \<Rightarrow> (bool \<times> processorImpl) outcome" where
  "GetAndDo e p key fn =
     (case mapToAckChan p of
        None \<Rightarrow> Panic
      | Some m \<Rightarrow>
          obind (hashFn e p (KString key))
            (\<lambda>stripe.
               case m key of
                 None \<Rightarrow> Ret (False, p)
               | Some existing \<Rightarrow> obind (fn key existing p) (\<lambda>p'. Ret (True, p'))))"

definition RemoveIf ::
  "env \<Rightarrow> processorImpl \<Rightarrow> string
     \<Rightarrow> (string \<Rightarrow> nat \<Rightarrow> processorImpl \<Rightarrow> (bool \<times> processorImpl) outcome)
     \<Rightarrow> (bool \<times> processorImpl) outcome" where
  "RemoveIf e p key pred =
     (case mapToAckChan p of
        None \<Rightarrow> Panic
      | Some m \<Rightarrow>
          obind (hashFn e p (KString key))
            (\<lambda>stripe.
               case m key of
                 None \<Rightarrow> Ret (False, p)
               | Some existing \<Rightarrow>
                   obind (pred key existing p)
                     (\<lambda>(b, p').
                        if b then Ret (True, p'\<lparr>mapToAckChan := Some (m(key := None))\<rparr>)
                        else Ret (False, p'))))"

subsection \<open>Tickets\<close>

text \<open>
  \<^verbatim>\<open>newAckChan\<close> allocates a channel of capacity 1 and a struct that points to it, and
  returns the pointer. \<open>now\<close> is the value of \<^verbatim>\<open>time.Now()\<close>.
\<close>

definition newAckChan :: "processorImpl \<Rightarrow> nat \<Rightarrow> nat \<times> processorImpl" where
  "newAckChan p now =
     (length (ackChans p),
      p\<lparr>chans := chans p @ [make_chan 1],
        ackChans := ackChans p @
          [\<lparr>ackChInternal = length (chans p), addedAt = now, startedAt = 0\<rparr>]\<rparr>)"

definition ackChan_start :: "nat \<Rightarrow> nat \<Rightarrow> processorImpl \<Rightarrow> processorImpl" where
  "ackChan_start a now p =
     p\<lparr>metricsClient :=
         RecordTimer ElasticsearchBulkProcessorWaitLatency
           (int now - int (addedAt (ackChans p ! a))) (metricsClient p),
       ackChans := (ackChans p)[a := (ackChans p ! a)\<lparr>startedAt := now\<rparr>]\<rparr>"

text \<open>
  The timers \<^verbatim>\<open>done\<close> records for a ticket.
\<close>

definition recordDone :: "ackChan \<Rightarrow> nat \<Rightarrow> metricsClient \<Rightarrow> metricsClient" where
  "recordDone a now mc =
     (let mc1 = RecordTimer ElasticsearchBulkProcessorRequestLatency
                  (int now - int (addedAt a)) mc
      in if startedAt a \<noteq> 0
         then RecordTimer ElasticsearchBulkProcessorCommitLatency
                (int now - int (startedAt a)) mc1
         else mc1)"

definition ackChan_done :: "nat \<Rightarrow> bool \<Rightarrow> nat \<Rightarrow> processorImpl \<Rightarrow> processorImpl outcome" where
  "ackChan_done a ack now p =
     (case chan_send (chans p ! ackChInternal (ackChans p ! a)) ack of
        None \<Rightarrow> Blocked
      | Some ch \<Rightarrow>
          Ret (p\<lparr>chans := (chans p)[ackChInternal (ackChans p ! a) := ch],
                 metricsClient := recordDone (ackChans p ! a) now (metricsClient p)\<rparr>))"

subsection \<open>Add\<close>

text \<open>
  The callback \<^verbatim>\<open>Add\<close> passes to \<^verbatim>\<open>PutOrDo\<close>: nack the existing ticket, then overwrite
  its three fields with those of the new ticket \<open>ackCh\<close>.
\<close>

definition replaceExisting ::
  "nat \<Rightarrow> nat \<Rightarrow> string \<Rightarrow> nat \<Rightarrow> processorImpl \<Rightarrow> processorImpl outcome" where
  "replaceExisting ackCh now key ackChExisting p =
     obind (ackChan_done ackChExisting False now p)
       (\<lambda>p1. Ret (p1\<lparr>ackChans := (ackChans p1)[ackChExisting :=
                       (ackChans p1 ! ackChExisting)
                         \<lparr>addedAt := addedAt (ackChans p1 ! ackCh),
                          startedAt := startedAt (ackChans p1 ! ackCh),
                          ackChInternal := ackChInternal (ackChans p1 ! ackCh)\<rparr>]\<rparr>))"

text \<open>
  \<^verbatim>\<open>Add\<close> returns the channel together with the new state.
\<close>

definition Add ::
  "env \<Rightarrow> processorImpl \<Rightarrow> nat \<Rightarrow> esclient_BulkableRequest \<Rightarrow> string
     \<Rightarrow> (nat \<times> processorImpl) outcome" where
  "Add e p now request visibilityTaskKey =
     (case newAckChan p now of
        (ackCh, p1) \<Rightarrow>
          let retCh = ackChInternal (ackChans p1 ! ackCh)
          in obind (PutOrDo e p1 visibilityTaskKey ackCh (replaceExisting ackCh now))
               (\<lambda>(isDup, p2).
                  if \<not> isDup then
                    (case bulkProcessor p2 of
                       None \<Rightarrow> Panic
                     | Some q \<Rightarrow> Ret (retCh, p2\<lparr>bulkProcessor := Some (q @ [request])\<rparr>))
                  else Ret (retCh, p2)))"

subsection \<open>Key extraction\<close>

definition countCorrupted :: "processorImpl \<Rightarrow> processorImpl" where
  "countCorrupted p =
     p\<lparr>metricsClient := IncCounter ElasticsearchBulkProcessorCorruptedData (metricsClient p)\<rparr>"

text \<open>
  The loop of \<^verbatim>\<open>extractDocID\<close> over the operations of the action line: the value under
  \<^verbatim>\<open>_id\<close> of the first operation that has one.
\<close>

fun first_id :: "(string \<times> (string \<rightharpoonup> json)) list \<Rightarrow> json option" where
  "first_id [] = None"
| "first_id (entry # rest) =
     (case (snd entry) ''_id'' of Some v \<Rightarrow> Some v | None \<Rightarrow> first_id rest)"

definition extractDocID ::
  "env \<Rightarrow> processorImpl \<Rightarrow> elastic_BulkableRequest \<Rightarrow> (string \<times> processorImpl) outcome" where
  "extractDocID e p request =
     (case Source request of
        Inl err \<Rightarrow> Ret ([], countCorrupted p)
      | Inr req \<Rightarrow>
          (case req of
             [] \<Rightarrow> Panic
           | line0 # lines \<Rightarrow>
               (case UnmarshalAction e line0 of
                  None \<Rightarrow> Ret ([], countCorrupted p)
                | Some body \<Rightarrow>
                    (case first_id body of
                       Some (JString s) \<Rightarrow> Ret (s, p)
                     | Some other \<Rightarrow> Panic
                     | None \<Rightarrow> Ret ([], countCorrupted p)))))"

definition extractVisibilityTaskKey ::
  "env \<Rightarrow> processorImpl \<Rightarrow> elastic_BulkableRequest \<Rightarrow> (string \<times> processorImpl) outcome" where
  "extractVisibilityTaskKey e p request =
     (case Source request of
        Inl err \<Rightarrow> Ret ([], countCorrupted p)
      | Inr req \<Rightarrow>
          if length req = 2 then
            (case UnmarshalBody e (req ! 1) of
               None \<Rightarrow> Ret ([], countCorrupted p)
             | Some body \<Rightarrow>
                 (case body VisibilityTaskKey of
                    None \<Rightarrow> Ret ([], countCorrupted p)
                  | Some (JString s) \<Rightarrow> Ret (s, p)
                  | Some other \<Rightarrow> Panic))
          else extractDocID e p request)"

subsection \<open>The commit hooks\<close>

definition sendToAckChan ::
  "env \<Rightarrow> processorImpl \<Rightarrow> nat \<Rightarrow> string \<Rightarrow> bool \<Rightarrow> processorImpl outcome" where
  "sendToAckChan e p now visibilityTaskKey ack =
     obind (RemoveIf e p visibilityTaskKey
              (\<lambda>key ackCh s. obind (ackChan_done ackCh ack now s) (\<lambda>s'. Ret (True, s'))))
       (\<lambda>(removed, p'). Ret p')"

text \<open>
  A \<^verbatim>\<open>for ... range\<close> loop whose body may fail to return.
\<close>

fun forEach :: "('s \<Rightarrow> 'a \<Rightarrow> 's outcome) \<Rightarrow> 's \<Rightarrow> 'a list \<Rightarrow> 's outcome" where
  "forEach body s [] = Ret s"
| "forEach body s (x # xs) =
     (case body s x of
        Ret s' \<Rightarrow> forEach body s' xs
      | Panic \<Rightarrow> Panic
      | Fatal \<Rightarrow> Fatal
      | Blocked \<Rightarrow> Blocked)"

definition beforeStep ::
  "env \<Rightarrow> nat \<Rightarrow> processorImpl \<Rightarrow> elastic_BulkableRequest \<Rightarrow> processorImpl outcome" where
  "beforeStep e now p request =
     obind (extractVisibilityTaskKey e p request)
       (\<lambda>(visibilityTaskKey, p1).
          if visibilityTaskKey = [] then Ret p1
          else obind (GetAndDo e p1 visibilityTaskKey (\<lambda>key ackCh s. Ret (ackChan_start ackCh now s)))
                 (\<lambda>(found, p2). Ret p2))"

definition bulkBeforeAction ::
  "env \<Rightarrow> processorImpl \<Rightarrow> nat \<Rightarrow> elastic_BulkableRequest list \<Rightarrow> processorImpl outcome" where
  "bulkBeforeAction e p now requests =
     forEach (beforeStep e now)
       (p\<lparr>metricsClient :=
            RecordDistribution ElasticsearchBulkProcessorBulkSize (int (length requests))
              (AddCounter ElasticsearchBulkProcessorRequests (int (length requests))
                 (metricsClient p))\<rparr>)
       requests"

text \<open>
  The body of the loop of \<^verbatim>\<open>bulkAfterAction\<close> when the commit returned an error.
\<close>

definition afterErrorStep ::
  "env \<Rightarrow> nat \<Rightarrow> bool \<Rightarrow> processorImpl \<Rightarrow> elastic_BulkableRequest \<Rightarrow> processorImpl outcome" where
  "afterErrorStep e now isRetryable p request =
     (let p1 = p\<lparr>metricsClient :=
                  IncCounter ElasticsearchBulkProcessorFailures (metricsClient p)\<rparr>
      in if \<not> isRetryable then
           obind (extractVisibilityTaskKey e p1 request)
             (\<lambda>(visibilityTaskKey, p2).
                if visibilityTaskKey = [] then Ret p2
                else sendToAckChan e p2 now visibilityTaskKey False)
         else Ret p1)"

text \<open>
  The body of the loop of \<^verbatim>\<open>bulkAfterAction\<close> when there is a response.
\<close>

definition afterStep ::
  "env \<Rightarrow> nat \<Rightarrow> (string \<rightharpoonup> BulkResponseItem) \<Rightarrow> processorImpl \<Rightarrow> elastic_BulkableRequest
     \<Rightarrow> processorImpl outcome" where
  "afterStep e now responseIndex p request =
     obind (extractVisibilityTaskKey e p request)
       (\<lambda>(visibilityTaskKey, p1).
          if visibilityTaskKey = [] then Ret p1
          else
            obind (extractDocID e p1 request)
              (\<lambda>(docID, p2).
                 case responseIndex docID of
                   None \<Rightarrow> sendToAckChan e (countCorrupted p2) now visibilityTaskKey False
                 | Some responseItem \<Rightarrow>
                     if isSuccess responseItem then sendToAckChan e p2 now visibilityTaskKey True
                     else if \<not> IsRetryableStatus e (Status responseItem) then
                       sendToAckChan e
                         (p2\<lparr>metricsClient :=
                               IncCounter ElasticsearchBulkProcessorFailures (metricsClient p2)\<rparr>)
                         now visibilityTaskKey False
                     else
                       Ret (p2\<lparr>metricsClient :=
                                 IncCounter ElasticsearchBulkProcessorRetries (metricsClient p2)\<rparr>)))"

text \<open>
  \<^verbatim>\<open>bulkAfterAction\<close>: \<open>err\<close> is \<open>None\<close> for a nil error and \<open>response\<close> is \<open>None\<close>
  for a nil pointer.
\<close>

definition bulkAfterAction ::
  "env \<Rightarrow> processorImpl \<Rightarrow> nat \<Rightarrow> elastic_BulkableRequest list \<Rightarrow> BulkResponse option
     \<Rightarrow> string option \<Rightarrow> processorImpl outcome" where
  "bulkAfterAction e p now requests response err =
     (case err of
        Some er \<Rightarrow> forEach (afterErrorStep e now (IsRetryableError e er)) p requests
      | None \<Rightarrow>
          (case response of
             None \<Rightarrow> Panic
           | Some resp \<Rightarrow> forEach (afterStep e now (buildResponseIndex resp)) p requests))"

subsection \<open>The reader of a channel\<close>

text \<open>
  The caller of \<^verbatim>\<open>Add\<close> receives from the channel it was given; this is the only step
  that is not a function of the processor.
\<close>

definition receive :: "processorImpl \<Rightarrow> nat \<Rightarrow> (bool \<times> processorImpl) option" where
  "receive p c =
     (if c < length (chans p) then
        (case chan_recv (chans p ! c) of
           None \<Rightarrow> None
         | Some (v, ch) \<Rightarrow> Some (v, p\<lparr>chans := (chans p)[c := ch]\<rparr>))
      else None)"

subsection \<open>Reachable states and their invariant\<close>

text \<open>
  The channel a ticket pointer leads to, and the channels the map refers to.
\<close>

definition chan_of :: "processorImpl \<Rightarrow> nat \<Rightarrow> nat" where
  "chan_of p a = ackChInternal (ackChans p ! a)"

definition referenced :: "processorImpl \<Rightarrow> nat \<Rightarrow> bool" where
  "referenced p c \<longleftrightarrow>
     (\<exists>m key a. mapToAckChan p = Some m \<and> m key = Some a \<and> chan_of p a = c)"

text \<open>
  The invariant has three parts. Map and bulk processor are set exactly in the started
  status, no channel exists before \<^verbatim>\<open>Start\<close>, and the concurrency is not zero. The
  pointers in the map are allocated, and so are their channels, and two keys never share a
  channel. Every channel has capacity 1 and was sent at most one value; a channel the map
  refers to was sent none, and a channel that was sent none is referred to by the map unless
  the processor is stopped.
\<close>

definition lifecycle_ok :: "processorImpl \<Rightarrow> bool" where
  "lifecycle_ok p \<longleftrightarrow>
     (mapToAckChan p \<noteq> None \<longleftrightarrow> status p = DaemonStatusStarted) \<and>
     (bulkProcessor p \<noteq> None \<longleftrightarrow> status p = DaemonStatusStarted) \<and>
     (status p = DaemonStatusInitialized \<longrightarrow> chans p = []) \<and>
     indexerConcurrency p \<noteq> 0"

definition map_ok :: "processorImpl \<Rightarrow> bool" where
  "map_ok p \<longleftrightarrow>
     (\<forall>m key a. mapToAckChan p = Some m \<longrightarrow> m key = Some a \<longrightarrow>
        a < length (ackChans p) \<and> chan_of p a < length (chans p)) \<and>
     (\<forall>m k1 k2 a1 a2. mapToAckChan p = Some m \<longrightarrow> m k1 = Some a1 \<longrightarrow> m k2 = Some a2 \<longrightarrow>
        chan_of p a1 = chan_of p a2 \<longrightarrow> k1 = k2)"

definition chans_ok :: "processorImpl \<Rightarrow> bool" where
  "chans_ok p \<longleftrightarrow>
     (\<forall>c < length (chans p).
        capacity (chans p ! c) = 1 \<and>
        received (chans p ! c) \<le> length (sent (chans p ! c)) \<and>
        length (sent (chans p ! c)) \<le> 1 \<and>
        (referenced p c \<longrightarrow> sent (chans p ! c) = []) \<and>
        (sent (chans p ! c) = [] \<longrightarrow> referenced p c \<or> status p = DaemonStatusStopped))"

definition consistent :: "processorImpl \<Rightarrow> bool" where
  "consistent p \<longleftrightarrow> lifecycle_ok p \<and> map_ok p \<and> chans_ok p"

text \<open>
  The states of the processor between calls: those of a new processor whose concurrency,
  the modulus of \<^verbatim>\<open>hashFn\<close>, is not zero, closed under the exported
  methods, the two hooks and the reader's step, each taken as a whole and called with
  any arguments, and under single iterations of the hooks' loops, so that the states
  between two iterations are included. The states inside a call of \<^verbatim>\<open>Start\<close> or
  \<^verbatim>\<open>Stop\<close> are not among them; \<open>interleaved\<close> below has those.
\<close>

inductive reachable :: "env \<Rightarrow> processorImpl \<Rightarrow> bool" for e :: env where
  reach_New:
    "indexerConcurrency (NewProcessor cfgIndexerConcurrency mc) \<noteq> 0 \<Longrightarrow>
       reachable e (NewProcessor cfgIndexerConcurrency mc)"
| reach_Start: "reachable e p \<Longrightarrow> Start p runFails = Ret p' \<Longrightarrow> reachable e p'"
| reach_Stop: "reachable e p \<Longrightarrow> Stop p stopFails = Ret p' \<Longrightarrow> reachable e p'"
| reach_Add: "reachable e p \<Longrightarrow> Add e p now request key = Ret (ch, p') \<Longrightarrow> reachable e p'"
| reach_Before: "reachable e p \<Longrightarrow> bulkBeforeAction e p now requests = Ret p' \<Longrightarrow> reachable e p'"
| reach_After:
    "reachable e p \<Longrightarrow> bulkAfterAction e p now requests response err = Ret p' \<Longrightarrow> reachable e p'"
| reach_receive: "reachable e p \<Longrightarrow> receive p c = Some (v, p') \<Longrightarrow> reachable e p'"
| reach_beforeStep: "reachable e p \<Longrightarrow> beforeStep e now p request = Ret p' \<Longrightarrow> reachable e p'"
| reach_afterErrorStep:
    "reachable e p \<Longrightarrow> afterErrorStep e now isRetryable p request = Ret p' \<Longrightarrow> reachable e p'"
| reach_afterStep:
    "reachable e p \<Longrightarrow> afterStep e now responseIndex p request = Ret p' \<Longrightarrow> reachable e p'"

subsection \<open>Requests whose extraction returns, and the keys of a batch\<close>

text \<open>
  A request is well typed when the values the extraction functions assert to be strings
  are strings: for a request of two lines, the value under \<^verbatim>\<open>VisibilityTaskKey\<close> of the
  body, if the body decodes and has the field; for any other request, which must have a
  first line, the first \<^verbatim>\<open>_id\<close> of its action line, if the line decodes and has one.
\<close>

definition well_typed :: "env \<Rightarrow> elastic_BulkableRequest \<Rightarrow> bool" where
  "well_typed e request =
     (case Source request of
        Inl err \<Rightarrow> True
      | Inr req \<Rightarrow>
          if length req = 2 then
            (case UnmarshalBody e (req ! 1) of
               None \<Rightarrow> True
             | Some body \<Rightarrow>
                 (case body VisibilityTaskKey of
                    None \<Rightarrow> True
                  | Some (JString s) \<Rightarrow> True
                  | Some other \<Rightarrow> False))
          else
            (case req of
               [] \<Rightarrow> False
             | line0 # lines \<Rightarrow>
                 (case UnmarshalAction e line0 of
                    None \<Rightarrow> True
                  | Some body \<Rightarrow>
                      (case first_id body of
                         None \<Rightarrow> True
                       | Some (JString s) \<Rightarrow> True
                       | Some other \<Rightarrow> False))))"

text \<open>
  The same condition for \<^verbatim>\<open>extractDocID\<close>, which the after-commit hook also calls on
  requests of two lines: the request has a first line, and the first \<^verbatim>\<open>_id\<close> of its
  action line, if the line decodes and has one, is a string.
\<close>

definition id_typed :: "env \<Rightarrow> elastic_BulkableRequest \<Rightarrow> bool" where
  "id_typed e request =
     (case Source request of
        Inl err \<Rightarrow> True
      | Inr req \<Rightarrow>
          (case req of
             [] \<Rightarrow> False
           | line0 # lines \<Rightarrow>
               (case UnmarshalAction e line0 of
                  None \<Rightarrow> True
                | Some body \<Rightarrow>
                    (case first_id body of
                       None \<Rightarrow> True
                     | Some (JString s) \<Rightarrow> True
                     | Some other \<Rightarrow> False))))"

text \<open>
  The key \<^verbatim>\<open>extractVisibilityTaskKey\<close> returns for a request, if it returns, and the
  non-empty keys of the requests of a batch.
\<close>

definition requestKey :: "env \<Rightarrow> processorImpl \<Rightarrow> elastic_BulkableRequest \<Rightarrow> string option" where
  "requestKey e p request =
     (case extractVisibilityTaskKey e p request of Ret (k, p') \<Rightarrow> Some k | _ \<Rightarrow> None)"

definition batchKeys :: "env \<Rightarrow> processorImpl \<Rightarrow> elastic_BulkableRequest list \<Rightarrow> string set" where
  "batchKeys e p requests =
     {k. k \<noteq> [] \<and> (\<exists>r\<in>set requests. requestKey e p r = Some k)}"

text \<open>
  \<open>acknowledged p K ack p'\<close>: the state \<open>p'\<close> is \<open>p\<close> after the tickets of the keys
  in \<open>K\<close> have been sent \<open>ack\<close> and removed from the map. The entries of other keys,
  the channels of other tickets and the ticket structs are as in \<open>p\<close>.
\<close>

definition acknowledged :: "processorImpl \<Rightarrow> string set \<Rightarrow> bool \<Rightarrow> processorImpl \<Rightarrow> bool" where
  "acknowledged p K ack p' \<longleftrightarrow>
     (\<exists>m. mapToAckChan p = Some m
        \<and> mapToAckChan p' = Some (\<lambda>k. if k \<in> K then None else m k)
        \<and> ackChans p' = ackChans p
        \<and> status p' = status p
        \<and> bulkProcessor p' = bulkProcessor p
        \<and> length (chans p') = length (chans p)
        \<and> (\<forall>c<length (chans p).
              chans p' ! c =
                (if \<exists>k\<in>K. \<exists>a. m k = Some a \<and> chan_of p a = c
                 then (chans p ! c)\<lparr>sent := [ack]\<rparr> else chans p ! c)))"

text \<open>
  \<open>undisturbed p p'\<close>: from \<open>p\<close> to \<open>p'\<close> no key has been added to the map, the
  ticket structs are the same, and every channel the map did not refer to in \<open>p\<close> is
  as it was and is still not referred to.
\<close>

definition undisturbed :: "processorImpl \<Rightarrow> processorImpl \<Rightarrow> bool" where
  "undisturbed p p' \<longleftrightarrow>
     (\<exists>m m'. mapToAckChan p = Some m \<and> mapToAckChan p' = Some m'
        \<and> (\<forall>k. m k = None \<longrightarrow> m' k = None))
     \<and> ackChans p' = ackChans p
     \<and> length (chans p') = length (chans p)
     \<and> (\<forall>c<length (chans p).
           \<not> referenced p c \<longrightarrow> chans p' ! c = chans p ! c \<and> \<not> referenced p' c)"

definition corruptedCount :: "processorImpl \<Rightarrow> int" where
  "corruptedCount p = counters (metricsClient p) ElasticsearchBulkProcessorCorruptedData"

subsection \<open>The stripes \<^verbatim>\<open>hashFn\<close> selects\<close>


subsection \<open>States during \<^verbatim>\<open>Start\<close> and \<^verbatim>\<open>Stop\<close>\<close>

text \<open>
  \<^verbatim>\<open>Start\<close> and \<^verbatim>\<open>Stop\<close> swap the status first and assign map and bulk processor
  afterwards, and \<^verbatim>\<open>Stop\<close> waits for the bulk processor in between. \<open>interleaved\<close>
  holds of the states other goroutines can see: those of a new processor with any
  configured concurrency, closed under complete calls of \<^verbatim>\<open>Start\<close>, \<^verbatim>\<open>Stop\<close> and
  \<^verbatim>\<open>Add\<close> and under the compare-and-swap of a \<^verbatim>\<open>Start\<close> or \<^verbatim>\<open>Stop\<close> whose
  remaining statements have not run yet.
\<close>

inductive interleaved :: "env \<Rightarrow> processorImpl \<Rightarrow> bool" for e :: env where
  inter_New: "interleaved e (NewProcessor cfgIndexerConcurrency mc)"
| inter_Start: "interleaved e p \<Longrightarrow> Start p runFails = Ret p' \<Longrightarrow> interleaved e p'"
| inter_Stop: "interleaved e p \<Longrightarrow> Stop p stopFails = Ret p' \<Longrightarrow> interleaved e p'"
| inter_Add: "interleaved e p \<Longrightarrow> Add e p now request key = Ret (ch, p') \<Longrightarrow> interleaved e p'"
| inter_swap_Start:
    "interleaved e p \<Longrightarrow>
       CompareAndSwapStatus p DaemonStatusInitialized DaemonStatusStarted = (True, p') \<Longrightarrow>
       interleaved e p'"
| inter_swap_Stop:
    "interleaved e p \<Longrightarrow>
       CompareAndSwapStatus p DaemonStatusStarted DaemonStatusStopped = (True, p') \<Longrightarrow>
       interleaved e p'"

subsection \<open>Example values\<close>

text \<open>
  Concrete values on which the theorems below are instantiated: an environment whose
  decoders know a few lines, a request, a started processor with no ticket, and the same
  processor after one \<^verbatim>\<open>Add\<close> under the key \<open>K\<close>.
\<close>

definition ex_metrics :: metricsClient where
  "ex_metrics = \<lparr>counters = (\<lambda>c. 0), samples = []\<rparr>"

definition ex_env :: env where
  "ex_env = \<lparr>Hash32 = (\<lambda>s. of_nat (length s)),
              IsRetryableError = (\<lambda>msg. msg = ''timeout''),
              IsRetryableStatus = (\<lambda>st. st = 429),
              UnmarshalBody = (\<lambda>line. if line = ''body K'' then Some [VisibilityTaskKey \<mapsto> JString ''K'']
                                      else if line = ''body 5'' then Some [VisibilityTaskKey \<mapsto> JNumber 5]
                                      else if line = ''body'' then Some Map.empty
                                      else None),
              UnmarshalAction = (\<lambda>line. if line = ''index A'' then Some [(''index'', [''_id'' \<mapsto> JString ''A''])]
                                      else if line = ''delete K'' then Some [(''delete'', [''_id'' \<mapsto> JString ''K''])]
                                      else if line = ''index'' then Some [(''index'', Map.empty)]
                                      else None)\<rparr>"

definition ex_request :: esclient_BulkableRequest where
  "ex_request = \<lparr>ID = ''A'', Doc = [(''VisibilityTaskKey'', JString ''K'')]\<rparr>"

definition ex_response :: BulkResponse where
  "ex_response =
     \<lparr>Items = [[(''index'', \<lparr>item_Id = ''A'', Status = 201, Error = None\<rparr>)],
               [(''index'', \<lparr>item_Id = ''A'', Status = 500, Error = None\<rparr>)],
               [(''delete'', \<lparr>item_Id = ''B'', Status = 404, Error = None\<rparr>)]]\<rparr>"

definition ex_index_request :: elastic_BulkableRequest where
  "ex_index_request = \<lparr>Source = Inr [''index A'', ''body K'']\<rparr>"

definition ex_delete_request :: elastic_BulkableRequest where
  "ex_delete_request = \<lparr>Source = Inr [''delete K'']\<rparr>"

definition ex_number_request :: elastic_BulkableRequest where
  "ex_number_request = \<lparr>Source = Inr [''index A'', ''body 5'']\<rparr>"

definition ex_partial_response :: BulkResponse where
  "ex_partial_response =
     \<lparr>Items = [[(''delete'', \<lparr>item_Id = ''B'', Status = 404, Error = None\<rparr>)]]\<rparr>"

definition ex_noid_request :: elastic_BulkableRequest where
  "ex_noid_request = \<lparr>Source = Inr [''index'', ''body K'']\<rparr>"

definition ex_started :: processorImpl where
  "ex_started =
     \<lparr>status = DaemonStatusStarted, bulkProcessor = Some [], mapToAckChan = Some Map.empty,
      metricsClient = ex_metrics, indexerConcurrency = 4, ackChans = [], chans = []\<rparr>"

text \<open>
  A processor on which \<^verbatim>\<open>Start\<close> has swapped the status and not yet assigned the map, a
  started processor on which \<^verbatim>\<open>Stop\<close> has swapped the status and not yet cleared the
  map, and a processor configured with concurrency 0 after \<^verbatim>\<open>Start\<close>.
\<close>

definition ex_starting :: processorImpl where
  "ex_starting =
     snd (CompareAndSwapStatus (NewProcessor 4 ex_metrics)
            DaemonStatusInitialized DaemonStatusStarted)"

definition ex_stopping :: processorImpl where
  "ex_stopping = snd (CompareAndSwapStatus ex_started DaemonStatusStarted DaemonStatusStopped)"

definition ex_zero_started :: processorImpl where
  "ex_zero_started =
     \<lparr>status = DaemonStatusStarted, bulkProcessor = Some [], mapToAckChan = Some Map.empty,
      metricsClient = ex_metrics, indexerConcurrency = 0, ackChans = [], chans = []\<rparr>"

definition ex_pending :: processorImpl where
  "ex_pending =
     \<lparr>status = DaemonStatusStarted, bulkProcessor = Some [ex_request],
      mapToAckChan = Some [''K'' \<mapsto> 0],
      metricsClient = ex_metrics, indexerConcurrency = 4,
      ackChans = [\<lparr>ackChInternal = 0, addedAt = 5, startedAt = 0\<rparr>],
      chans = [make_chan 1]\<rparr>"

text \<open>
  \<open>ex_pending\<close> after the after-commit hook has counted corrupted data twice and sent
  \<open>False\<close> to the ticket of \<open>K\<close> at instant 9.
\<close>

definition ex_nacked_twice :: processorImpl where
  "ex_nacked_twice =
     ex_pending
       \<lparr>mapToAckChan := Some Map.empty,
        metricsClient :=
          RecordTimer ElasticsearchBulkProcessorRequestLatency 4
            (IncCounter ElasticsearchBulkProcessorCorruptedData
               (IncCounter ElasticsearchBulkProcessorCorruptedData ex_metrics)),
        chans := [(make_chan 1)\<lparr>sent := [False]\<rparr>]\<rparr>"

section \<open>The invariant holds in every reachable state\<close>

lemma Start_eq:
  "Start p runFails =
     (if status p \<noteq> DaemonStatusInitialized then Ret p
      else if runFails then Fatal
      else Ret (p\<lparr>status := DaemonStatusStarted, mapToAckChan := Some Map.empty,
                  bulkProcessor := Some []\<rparr>))"
  by (simp add: Start_def CompareAndSwapStatus_def)

lemma Stop_eq:
  "Stop p stopFails =
     (if status p \<noteq> DaemonStatusStarted then Ret p
      else case bulkProcessor p of
             None \<Rightarrow> Panic
           | Some q \<Rightarrow>
               if stopFails then Fatal
               else Ret (p\<lparr>status := DaemonStatusStopped, mapToAckChan := None,
                           bulkProcessor := None\<rparr>))"
  by (simp add: Stop_def CompareAndSwapStatus_def split: option.splits)

lemma consistent_metrics [simp]: "consistent (p\<lparr>metricsClient := x\<rparr>) = consistent p"
  by (simp add: consistent_def lifecycle_ok_def map_ok_def chans_ok_def referenced_def chan_of_def)

lemma consistent_engine:
  "bulkProcessor p \<noteq> None \<Longrightarrow> consistent (p\<lparr>bulkProcessor := Some q\<rparr>) = consistent p"
  by (auto simp add: consistent_def lifecycle_ok_def map_ok_def chans_ok_def referenced_def chan_of_def)

lemma consistent_nonzero: "consistent p \<Longrightarrow> indexerConcurrency p \<noteq> 0"
  by (simp add: consistent_def lifecycle_ok_def)

lemma hashFn_returns:
  "indexerConcurrency p \<noteq> 0 \<Longrightarrow>
     hashFn e p key = Ret (case key of KOther \<Rightarrow> 0
                           | KString ident \<Rightarrow> Hash32 e ident mod indexerConcurrency p)"
  by (simp add: hashFn_def split: go_key.splits)

lemma consistent_New:
  "indexerConcurrency (NewProcessor c mc) \<noteq> 0 \<Longrightarrow> consistent (NewProcessor c mc)"
  by (simp add: consistent_def lifecycle_ok_def map_ok_def chans_ok_def NewProcessor_def)


lemma consistent_Start: "consistent p \<Longrightarrow> Start p f = Ret p' \<Longrightarrow> consistent p'"
  apply (cases "status p = DaemonStatusInitialized"; cases f)
  apply (simp_all add: Start_eq)
  apply (auto simp: consistent_def lifecycle_ok_def map_ok_def chans_ok_def referenced_def chan_of_def)
  done


lemma consistent_Stop: "consistent p \<Longrightarrow> Stop p f = Ret p' \<Longrightarrow> consistent p'"
  apply (cases "status p = DaemonStatusStarted"; cases f; cases "bulkProcessor p")
  apply (simp_all add: Stop_eq)
  apply (auto simp: consistent_def lifecycle_ok_def map_ok_def chans_ok_def referenced_def chan_of_def)
  done

lemma referenced_chans [simp]: "referenced (p\<lparr>chans := x\<rparr>) c = referenced p c"
  by (simp add: referenced_def chan_of_def)

lemma receive_Some:
  "receive p c = Some (v, p') \<Longrightarrow>
     c < length (chans p) \<and> received (chans p ! c) < length (sent (chans p ! c)) \<and>
     v = sent (chans p ! c) ! received (chans p ! c) \<and>
     p' = p\<lparr>chans := (chans p)[c := (chans p ! c)\<lparr>received := Suc (received (chans p ! c))\<rparr>]\<rparr>"
  by (auto simp: receive_def chan_recv_def split: if_splits)

lemma consistent_receive:
  assumes "consistent p" and "receive p c = Some (v, p')"
  shows "consistent p'"
proof -
  let ?ch = "(chans p ! c)\<lparr>received := Suc (received (chans p ! c))\<rparr>"
  from receive_Some [OF assms(2)]
  have c: "c < length (chans p)" and r: "received (chans p ! c) < length (sent (chans p ! c))"
    and p': "p' = p\<lparr>chans := (chans p)[c := ?ch]\<rparr>" by simp_all
  from assms(1) have l: "lifecycle_ok p" and m: "map_ok p" and k: "chans_ok p"
    by (simp_all add: consistent_def)
  have "lifecycle_ok p'" using l by (simp add: p' lifecycle_ok_def)
  moreover have "map_ok p'" using m by (simp add: p' map_ok_def chan_of_def)
  moreover have "chans_ok p'"
    unfolding chans_ok_def
  proof (intro allI impI)
    fix d assume "d < length (chans p')"
    then have d: "d < length (chans p)" by (simp add: p')
    with k have *: "capacity (chans p ! d) = 1 \<and>
        received (chans p ! d) \<le> length (sent (chans p ! d)) \<and>
        length (sent (chans p ! d)) \<le> 1 \<and>
        (referenced p d \<longrightarrow> sent (chans p ! d) = []) \<and>
        (sent (chans p ! d) = [] \<longrightarrow> referenced p d \<or> status p = DaemonStatusStopped)"
      by (simp add: chans_ok_def)
    show "capacity (chans p' ! d) = 1 \<and>
        received (chans p' ! d) \<le> length (sent (chans p' ! d)) \<and>
        length (sent (chans p' ! d)) \<le> 1 \<and>
        (referenced p' d \<longrightarrow> sent (chans p' ! d) = []) \<and>
        (sent (chans p' ! d) = [] \<longrightarrow> referenced p' d \<or> status p' = DaemonStatusStopped)"
      using * r d c by (cases "d = c") (auto simp: p' nth_list_update)
  qed
  ultimately show ?thesis by (simp add: consistent_def)
qed


lemma chan_send_empty:
  "capacity ch = 1 \<Longrightarrow> sent ch = [] \<Longrightarrow> chan_send ch v = Some (ch\<lparr>sent := [v]\<rparr>)"
  by (simp add: chan_send_def)


lemma ackChan_overwrite:
  "t\<lparr>addedAt := x, startedAt := y, ackChInternal := z\<rparr> =
     \<lparr>ackChInternal = z, addedAt = x, startedAt = y\<rparr>"
  by (cases t) simp

lemma Add_fresh:
  assumes "indexerConcurrency p \<noteq> 0"
    and "mapToAckChan p = Some m" and "m key = None" and "bulkProcessor p = Some q"
  shows "Add e p now request key =
     Ret (length (chans p),
          p\<lparr>chans := chans p @ [make_chan 1],
            ackChans := ackChans p @
              [\<lparr>ackChInternal = length (chans p), addedAt = now, startedAt = 0\<rparr>],
            mapToAckChan := Some (m(key \<mapsto> length (ackChans p))),
            bulkProcessor := Some (q @ [request])\<rparr>)"
  using assms by (simp add: Add_def newAckChan_def PutOrDo_def hashFn_returns)

lemma Add_duplicate:
  assumes "indexerConcurrency p \<noteq> 0"
    and "mapToAckChan p = Some m" and "m key = Some a" and "a < length (ackChans p)"
    and "chan_of p a < length (chans p)"
    and "chan_send (chans p ! chan_of p a) False = Some ch"
  shows "Add e p now request key =
     Ret (length (chans p),
          p\<lparr>chans := (chans p)[chan_of p a := ch] @ [make_chan 1],
            metricsClient := recordDone (ackChans p ! a) now (metricsClient p),
            ackChans := (ackChans p)
                [a := \<lparr>ackChInternal = length (chans p), addedAt = now, startedAt = 0\<rparr>] @
              [\<lparr>ackChInternal = length (chans p), addedAt = now, startedAt = 0\<rparr>]\<rparr>)"
  using assms
  by (simp add: Add_def newAckChan_def PutOrDo_def replaceExisting_def ackChan_done_def
      chan_of_def nth_append list_update_append1 ackChan_overwrite hashFn_returns)

lemma sendToAckChan_absent:
  "indexerConcurrency p \<noteq> 0 \<Longrightarrow> mapToAckChan p = Some m \<Longrightarrow> m key = None \<Longrightarrow>
     sendToAckChan e p now key ack = Ret p"
  by (simp add: sendToAckChan_def RemoveIf_def hashFn_returns)

lemma sendToAckChan_present:
  assumes "indexerConcurrency p \<noteq> 0"
    and "mapToAckChan p = Some m" and "m key = Some a"
    and "chan_send (chans p ! chan_of p a) ack = Some ch"
  shows "sendToAckChan e p now key ack =
     Ret (p\<lparr>chans := (chans p)[chan_of p a := ch],
            metricsClient := recordDone (ackChans p ! a) now (metricsClient p),
            mapToAckChan := Some (m(key := None))\<rparr>)"
  using assms
  by (simp add: sendToAckChan_def RemoveIf_def ackChan_done_def chan_of_def hashFn_returns)


lemma referencedI:
  "mapToAckChan p = Some m \<Longrightarrow> m key = Some a \<Longrightarrow> chan_of p a = c \<Longrightarrow> referenced p c"
  unfolding referenced_def by blast

lemma referencedE:
  assumes "referenced p c"
  obtains m key a where "mapToAckChan p = Some m" and "m key = Some a" and "chan_of p a = c"
  using assms unfolding referenced_def by blast

lemma consistent_valid:
  "consistent p \<Longrightarrow> mapToAckChan p = Some m \<Longrightarrow> m key = Some a \<Longrightarrow>
     a < length (ackChans p) \<and> chan_of p a < length (chans p)"
  unfolding consistent_def map_ok_def by blast

lemma consistent_inj:
  "consistent p \<Longrightarrow> mapToAckChan p = Some m \<Longrightarrow> m k1 = Some a1 \<Longrightarrow> m k2 = Some a2 \<Longrightarrow>
     chan_of p a1 = chan_of p a2 \<Longrightarrow> k1 = k2"
  unfolding consistent_def map_ok_def by blast

lemma consistent_chan:
  "consistent p \<Longrightarrow> c < length (chans p) \<Longrightarrow>
     capacity (chans p ! c) = 1 \<and>
     received (chans p ! c) \<le> length (sent (chans p ! c)) \<and>
     length (sent (chans p ! c)) \<le> 1 \<and>
     (referenced p c \<longrightarrow> sent (chans p ! c) = []) \<and>
     (sent (chans p ! c) = [] \<longrightarrow> referenced p c \<or> status p = DaemonStatusStopped)"
  unfolding consistent_def chans_ok_def by blast

lemma consistent_pending:
  assumes "consistent p" and "mapToAckChan p = Some m" and "m key = Some a"
  shows "sent (chans p ! chan_of p a) = [] \<and> capacity (chans p ! chan_of p a) = 1
     \<and> received (chans p ! chan_of p a) = 0"
proof -
  have "chan_of p a < length (chans p)" using consistent_valid [OF assms] by simp
  moreover have "referenced p (chan_of p a)" using assms(2,3) unfolding referenced_def by blast
  ultimately show ?thesis using consistent_chan [OF assms(1), of "chan_of p a"] by auto
qed

lemma consistent_send:
  assumes con: "consistent p" and m: "mapToAckChan p = Some m" and a: "m key = Some a"
  shows "consistent (p\<lparr>chans := (chans p)[chan_of p a := (chans p ! chan_of p a)\<lparr>sent := [ack]\<rparr>],
                      mapToAckChan := Some (m(key := None))\<rparr>)"
    (is "consistent ?p'")
proof -
  let ?c = "chan_of p a"
  have chan_of': "\<And>b. chan_of ?p' b = chan_of p b" by (simp add: chan_of_def)
  have ref': "\<And>d. referenced ?p' d \<longleftrightarrow> referenced p d \<and> d \<noteq> ?c"
  proof
    fix d assume "referenced ?p' d"
    then obtain k b where kb: "(m(key := None)) k = Some b" "chan_of p b = d"
      unfolding referenced_def by (auto simp: chan_of')
    then have k: "k \<noteq> key" "m k = Some b" by (auto split: if_splits)
    then have "d \<noteq> ?c" using consistent_inj [OF con m k(2) a] kb(2) by auto
    moreover have "referenced p d" using m k(2) kb(2) unfolding referenced_def by blast
    ultimately show "referenced p d \<and> d \<noteq> ?c" by simp
  next
    fix d assume "referenced p d \<and> d \<noteq> ?c"
    then obtain k b where kb: "m k = Some b" "chan_of p b = d" "d \<noteq> ?c"
      unfolding referenced_def using m by auto
    then have "k \<noteq> key" using a by auto
    then show "referenced ?p' d" unfolding referenced_def using kb by (auto simp: chan_of')
  qed
  from con have "lifecycle_ok p" by (simp add: consistent_def)
  then have "lifecycle_ok ?p'" using m by (simp add: lifecycle_ok_def)
  moreover have "map_ok ?p'"
    unfolding map_ok_def
  proof (intro conjI allI impI)
    fix m' k b assume "mapToAckChan ?p' = Some m'" "m' k = Some b"
    then have "m k = Some b" by (auto split: if_splits)
    from consistent_valid [OF con m this]
    show "b < length (ackChans ?p')" "chan_of ?p' b < length (chans ?p')"
      by (simp_all add: chan_of')
  next
    fix m' k1 k2 a1 a2
    assume "mapToAckChan ?p' = Some m'" "m' k1 = Some a1" "m' k2 = Some a2"
      "chan_of ?p' a1 = chan_of ?p' a2"
    then have "m k1 = Some a1" "m k2 = Some a2" "chan_of p a1 = chan_of p a2"
      by (auto simp: chan_of' split: if_splits)
    then show "k1 = k2" using consistent_inj [OF con m] by blast
  qed
  moreover have "chans_ok ?p'"
    unfolding chans_ok_def
  proof (intro allI impI)
    fix d assume "d < length (chans ?p')"
    then have d: "d < length (chans p)" by simp
    note * = consistent_chan [OF con d] and pend = consistent_pending [OF con m a]
    show "capacity (chans ?p' ! d) = 1 \<and>
        received (chans ?p' ! d) \<le> length (sent (chans ?p' ! d)) \<and>
        length (sent (chans ?p' ! d)) \<le> 1 \<and>
        (referenced ?p' d \<longrightarrow> sent (chans ?p' ! d) = []) \<and>
        (sent (chans ?p' ! d) = [] \<longrightarrow> referenced ?p' d \<or> status ?p' = DaemonStatusStopped)"
      unfolding ref' using * pend d by (cases "d = ?c") (simp_all add: nth_list_update)
  qed
  ultimately show ?thesis by (simp add: consistent_def)
qed


lemma consistent_Add_fresh:
  assumes con: "consistent p" and m: "mapToAckChan p = Some m" and a: "m key = None"
    and q: "bulkProcessor p = Some q"
  shows "consistent
     (p\<lparr>chans := chans p @ [make_chan 1],
        ackChans := ackChans p @
          [\<lparr>ackChInternal = length (chans p), addedAt = now, startedAt = 0\<rparr>],
        mapToAckChan := Some (m(key \<mapsto> length (ackChans p))),
        bulkProcessor := Some (q @ [request])\<rparr>)"
    (is "consistent ?p'")
proof -
  have old: "\<And>k b. m k = Some b \<Longrightarrow> chan_of ?p' b = chan_of p b \<and> chan_of p b < length (chans p)
      \<and> b < length (ackChans p)"
    using consistent_valid [OF con m] by (simp add: chan_of_def nth_append)
  have new: "chan_of ?p' (length (ackChans p)) = length (chans p)" by (simp add: chan_of_def)
  have ref': "\<And>d. referenced ?p' d \<longleftrightarrow> referenced p d \<or> d = length (chans p)"
  proof
    fix d assume "referenced ?p' d"
    then obtain k b where kb: "(m(key \<mapsto> length (ackChans p))) k = Some b" "chan_of ?p' b = d"
      unfolding referenced_def by auto
    show "referenced p d \<or> d = length (chans p)"
    proof (cases "k = key")
      case True then show ?thesis using kb new by simp
    next
      case False
      then have mk: "m k = Some b" using kb by simp
      then have "chan_of p b = d" using old [of k b] kb(2) by simp
      then show ?thesis using referencedI [OF m mk] by simp
    qed
  next
    fix d assume "referenced p d \<or> d = length (chans p)"
    then show "referenced ?p' d"
    proof
      assume "referenced p d"
      then obtain k b where kb: "m k = Some b" "chan_of p b = d"
        unfolding referenced_def using m by auto
      then have "k \<noteq> key" using a by auto
      then have "(m(key \<mapsto> length (ackChans p))) k = Some b" using kb by simp
      moreover have "chan_of ?p' b = d" using old [OF kb(1)] kb(2) by simp
      ultimately show ?thesis by (intro referencedI [where m = "m(key \<mapsto> length (ackChans p))"]) simp_all
    next
      assume "d = length (chans p)"
      then show ?thesis using new
        by (intro referencedI [where m = "m(key \<mapsto> length (ackChans p))" and key = key]) simp_all
    qed
  qed
  from con have "lifecycle_ok p" by (simp add: consistent_def)
  then have "lifecycle_ok ?p'" using m q by (auto simp: lifecycle_ok_def)
  moreover have "map_ok ?p'"
    unfolding map_ok_def
  proof (intro conjI allI impI)
    fix m' k b assume "mapToAckChan ?p' = Some m'" "m' k = Some b"
    then have "k = key \<and> b = length (ackChans p) \<or> m k = Some b" by (auto split: if_splits)
    then show "b < length (ackChans ?p')" "chan_of ?p' b < length (chans ?p')"
      using old [of k b] new by auto
  next
    fix m' k1 k2 a1 a2
    assume "mapToAckChan ?p' = Some m'" "m' k1 = Some a1" "m' k2 = Some a2"
      "chan_of ?p' a1 = chan_of ?p' a2"
    then have 1: "k1 = key \<and> a1 = length (ackChans p) \<or> k1 \<noteq> key \<and> m k1 = Some a1"
      and 2: "k2 = key \<and> a2 = length (ackChans p) \<or> k2 \<noteq> key \<and> m k2 = Some a2"
      and 3: "chan_of ?p' a1 = chan_of ?p' a2"
      by (auto split: if_splits)
    show "k1 = k2"
      using 1 2 3 old [of k1 a1] old [of k2 a2] new consistent_inj [OF con m, of k1 a1 k2 a2]
      by auto
  qed
  moreover have "chans_ok ?p'"
    unfolding chans_ok_def
  proof (intro allI impI)
    fix d assume "d < length (chans ?p')"
    then consider "d < length (chans p)" | "d = length (chans p)" by fastforce
    then show "capacity (chans ?p' ! d) = 1 \<and>
        received (chans ?p' ! d) \<le> length (sent (chans ?p' ! d)) \<and>
        length (sent (chans ?p' ! d)) \<le> 1 \<and>
        (referenced ?p' d \<longrightarrow> sent (chans ?p' ! d) = []) \<and>
        (sent (chans ?p' ! d) = [] \<longrightarrow> referenced ?p' d \<or> status ?p' = DaemonStatusStopped)"
    proof cases
      case 1
      with consistent_chan [OF con 1] show ?thesis
        unfolding ref' by (simp add: nth_append)
    next
      case 2
      then show ?thesis unfolding ref' by (simp add: make_chan_def)
    qed
  qed
  ultimately show ?thesis by (simp add: consistent_def)
qed


lemma consistent_Add_duplicate:
  assumes con: "consistent p" and m: "mapToAckChan p = Some m" and a: "m key = Some a"
  shows "consistent
     (p\<lparr>chans := (chans p)[chan_of p a := (chans p ! chan_of p a)\<lparr>sent := [False]\<rparr>]
                 @ [make_chan 1],
        ackChans := (ackChans p)
            [a := \<lparr>ackChInternal = length (chans p), addedAt = now, startedAt = 0\<rparr>] @
          [\<lparr>ackChInternal = length (chans p), addedAt = now, startedAt = 0\<rparr>]\<rparr>)"
    (is "consistent ?p'")
proof -
  let ?c = "chan_of p a"
  note va = consistent_valid [OF con m a]
  have new: "chan_of ?p' a = length (chans p)"
    using va by (simp add: chan_of_def nth_append)
  have old: "\<And>k b. m k = Some b \<Longrightarrow> k \<noteq> key \<Longrightarrow>
      chan_of ?p' b = chan_of p b \<and> chan_of p b < length (chans p) \<and> chan_of p b \<noteq> ?c
      \<and> b < length (ackChans p)"
  proof -
    fix k b assume kb: "m k = Some b" "k \<noteq> key"
    have ne: "chan_of p b \<noteq> ?c" using consistent_inj [OF con m kb(1) a] kb(2) by auto
    then have "b \<noteq> a" by auto
    then show "chan_of ?p' b = chan_of p b \<and> chan_of p b < length (chans p) \<and> chan_of p b \<noteq> ?c
      \<and> b < length (ackChans p)"
      using consistent_valid [OF con m kb(1)] ne by (simp add: chan_of_def nth_append)
  qed
  have mp': "mapToAckChan ?p' = Some m" using m by simp
  have ref': "\<And>d. referenced ?p' d \<longleftrightarrow> referenced p d \<and> d \<noteq> ?c \<or> d = length (chans p)"
  proof
    fix d assume "referenced ?p' d"
    then obtain k b where kb: "m k = Some b" "chan_of ?p' b = d"
      using mp' by (auto elim!: referencedE)
    show "referenced p d \<and> d \<noteq> ?c \<or> d = length (chans p)"
    proof (cases "k = key")
      case True then show ?thesis using kb a new by simp
    next
      case False
      then have "chan_of p b = d \<and> d \<noteq> ?c" using old [OF kb(1)] kb(2) by auto
      then show ?thesis using referencedI [OF m kb(1)] by simp
    qed
  next
    fix d assume "referenced p d \<and> d \<noteq> ?c \<or> d = length (chans p)"
    then show "referenced ?p' d"
    proof
      assume *: "referenced p d \<and> d \<noteq> ?c"
      then obtain k b where kb: "m k = Some b" "chan_of p b = d"
        using m by (auto elim!: referencedE)
      then have "k \<noteq> key" using a * by auto
      then have "chan_of ?p' b = d" using old [OF kb(1)] kb(2) by simp
      then show ?thesis using referencedI [OF mp' kb(1)] by simp
    next
      assume "d = length (chans p)"
      then show ?thesis using referencedI [OF mp' a] new by simp
    qed
  qed
  from con have "lifecycle_ok p" by (simp add: consistent_def)
  then have "lifecycle_ok ?p'" using m by (auto simp: lifecycle_ok_def)
  moreover have "map_ok ?p'"
    unfolding map_ok_def
  proof (intro conjI allI impI)
    fix m' k b assume "mapToAckChan ?p' = Some m'" "m' k = Some b"
    then have kb: "m k = Some b" using m by simp
    show "b < length (ackChans ?p')" using consistent_valid [OF con m kb] by simp
    show "chan_of ?p' b < length (chans ?p')"
    proof (cases "k = key")
      case True
      then have "b = a" using a kb by simp
      then show ?thesis using new by simp
    next
      case False
      from old [OF kb False] show ?thesis by simp
    qed
  next
    fix m' k1 k2 a1 a2
    assume "mapToAckChan ?p' = Some m'" "m' k1 = Some a1" "m' k2 = Some a2"
      "chan_of ?p' a1 = chan_of ?p' a2"
    then have 1: "m k1 = Some a1" and 2: "m k2 = Some a2"
      and 3: "chan_of ?p' a1 = chan_of ?p' a2"
      using m by simp_all
    show "k1 = k2"
    proof (cases "k1 = key")
      case k1: True
      then have c1: "chan_of ?p' a1 = length (chans p)" using 1 a new by simp
      show ?thesis
      proof (cases "k2 = key")
        case True with k1 show ?thesis by simp
      next
        case False
        from old [OF 2 False] c1 3 show ?thesis by simp
      qed
    next
      case k1: False
      note o1 = old [OF 1 k1]
      show ?thesis
      proof (cases "k2 = key")
        case True
        then have "chan_of ?p' a2 = length (chans p)" using 2 a new by simp
        with o1 3 show ?thesis by simp
      next
        case False
        from old [OF 2 False] o1 3 have "chan_of p a1 = chan_of p a2" by simp
        then show ?thesis by (rule consistent_inj [OF con m 1 2])
      qed
    qed
  qed
  moreover have "chans_ok ?p'"
    unfolding chans_ok_def
  proof (intro allI impI)
    fix d assume "d < length (chans ?p')"
    then consider "d < length (chans p)" | "d = length (chans p)" by fastforce
    then show "capacity (chans ?p' ! d) = 1 \<and>
        received (chans ?p' ! d) \<le> length (sent (chans ?p' ! d)) \<and>
        length (sent (chans ?p' ! d)) \<le> 1 \<and>
        (referenced ?p' d \<longrightarrow> sent (chans ?p' ! d) = []) \<and>
        (sent (chans ?p' ! d) = [] \<longrightarrow> referenced ?p' d \<or> status ?p' = DaemonStatusStopped)"
    proof cases
      case 1
      with consistent_chan [OF con 1] consistent_pending [OF con m a] va show ?thesis
        unfolding ref' by (cases "d = ?c") (simp_all add: nth_append nth_list_update)
    next
      case 2
      then show ?thesis unfolding ref' by (simp add: make_chan_def nth_append)
    qed
  qed
  ultimately show ?thesis by (simp add: consistent_def)
qed

lemma consistent_start:
  assumes con: "consistent p"
  shows "consistent (ackChan_start a now p)"
proof -
  let ?p' = "ackChan_start a now p"
  have chan_of': "\<And>b. chan_of ?p' b = chan_of p b"
  proof -
    fix b show "chan_of ?p' b = chan_of p b"
      by (cases "a < length (ackChans p)"; cases "b = a")
         (simp_all add: chan_of_def ackChan_start_def list_update_beyond)
  qed
  have sel: "mapToAckChan ?p' = mapToAckChan p" "chans ?p' = chans p" "status ?p' = status p"
    "bulkProcessor ?p' = bulkProcessor p" "length (ackChans ?p') = length (ackChans p)"
    "indexerConcurrency ?p' = indexerConcurrency p"
    by (simp_all add: ackChan_start_def)
  have ref': "\<And>d. referenced ?p' d = referenced p d"
    by (simp add: referenced_def chan_of' sel)
  show ?thesis
    using con unfolding consistent_def lifecycle_ok_def map_ok_def chans_ok_def ref' chan_of' sel
    by simp
qed


lemma consistent_sendToAckChan:
  assumes "consistent p" and "sendToAckChan e p now key ack = Ret p'"
  shows "consistent p'"
proof (cases "mapToAckChan p")
  case None
  then show ?thesis using assms(2) by (simp add: sendToAckChan_def RemoveIf_def)
next
  case (Some m)
  note nz = consistent_nonzero [OF assms(1)]
  show ?thesis
  proof (cases "m key")
    case None
    then show ?thesis using assms sendToAckChan_absent [OF nz Some None] by simp
  next
    case (Some a)
    note pend = consistent_pending [OF assms(1) \<open>mapToAckChan p = Some m\<close> Some]
    then have "chan_send (chans p ! chan_of p a) ack = Some ((chans p ! chan_of p a)\<lparr>sent := [ack]\<rparr>)"
      by (simp add: chan_send_empty)
    from sendToAckChan_present [OF nz \<open>mapToAckChan p = Some m\<close> Some this,
        where now = now and e = e] assms(2)
    have "p' = (p\<lparr>chans := (chans p)[chan_of p a := (chans p ! chan_of p a)\<lparr>sent := [ack]\<rparr>],
            mapToAckChan := Some (m(key := None))\<rparr>)
          \<lparr>metricsClient := recordDone (ackChans p ! a) now (metricsClient p)\<rparr>" by simp
    then show ?thesis
      using consistent_send [OF assms(1) \<open>mapToAckChan p = Some m\<close> Some, where ack = ack]
      by (simp only: consistent_metrics)
  qed
qed

lemma consistent_Add:
  assumes "consistent p" and "Add e p now request key = Ret (ch, p')"
  shows "consistent p'"
proof (cases "mapToAckChan p")
  case None
  then show ?thesis using assms(2) by (simp add: Add_def newAckChan_def PutOrDo_def)
next
  case (Some m)
  from assms(1) Some obtain q where q: "bulkProcessor p = Some q"
    by (auto simp: consistent_def lifecycle_ok_def)
  show ?thesis
  proof (cases "m key")
    case None
    from Add_fresh [OF consistent_nonzero [OF assms(1)] Some None q,
        where now = now and request = request and e = e] assms(2)
      consistent_Add_fresh [OF assms(1) Some None q, where now = now and request = request]
    show ?thesis by simp
  next
    case (Some a)
    note m = \<open>mapToAckChan p = Some m\<close>
    note pend = consistent_pending [OF assms(1) m Some]
    then have "chan_send (chans p ! chan_of p a) False = Some ((chans p ! chan_of p a)\<lparr>sent := [False]\<rparr>)"
      by (simp add: chan_send_empty)
    from Add_duplicate [OF consistent_nonzero [OF assms(1)] m Some _ _ this,
        where now = now and request = request and e = e]
      consistent_valid [OF assms(1) m Some] assms(2)
    have "p' = (p\<lparr>chans := (chans p)[chan_of p a := (chans p ! chan_of p a)\<lparr>sent := [False]\<rparr>]
                 @ [make_chan 1],
            ackChans := (ackChans p)
                [a := \<lparr>ackChInternal = length (chans p), addedAt = now, startedAt = 0\<rparr>] @
              [\<lparr>ackChInternal = length (chans p), addedAt = now, startedAt = 0\<rparr>]\<rparr>)
          \<lparr>metricsClient := recordDone (ackChans p ! a) now (metricsClient p)\<rparr>" by simp
    then show ?thesis
      using consistent_Add_duplicate [OF assms(1) m Some, where now = now]
      by (simp only: consistent_metrics)
  qed
qed

lemma consistent_countCorrupted [simp]: "consistent (countCorrupted p) = consistent p"
  by (simp add: countCorrupted_def)

lemma extractDocID_cases:
  assumes "extractDocID e p request = Ret (d, p')"
  shows "p' = p \<or> (p' = countCorrupted p \<and> d = [])"
  using assms
  by (auto simp: extractDocID_def split: sum.splits list.splits option.splits json.splits)

lemma extractVisibilityTaskKey_cases:
  assumes "extractVisibilityTaskKey e p request = Ret (k, p')"
  shows "p' = p \<or> (p' = countCorrupted p \<and> k = [])"
  using assms extractDocID_cases [of e p request k p']
  by (auto simp: extractVisibilityTaskKey_def split: sum.splits option.splits json.splits if_splits)

lemma forEach_preserves:
  assumes step: "\<And>s x s'. P s \<Longrightarrow> body s x = Ret s' \<Longrightarrow> P s'"
  shows "P s \<Longrightarrow> forEach body s xs = Ret s' \<Longrightarrow> P s'"
proof (induction xs arbitrary: s)
  case Nil
  then show ?case by simp
next
  case (Cons x xs)
  then show ?case by (auto split: outcome.splits dest: step)
qed

lemma consistent_GetAndDo_start:
  assumes "consistent p"
    and "GetAndDo e p key (\<lambda>key ackCh s. Ret (ackChan_start ackCh now s)) = Ret (found, p')"
  shows "consistent p'"
  using assms consistent_start
  by (auto simp: GetAndDo_def hashFn_def split: option.splits if_splits)

lemma consistent_beforeStep:
  assumes "consistent p" and "beforeStep e now p request = Ret p'"
  shows "consistent p'"
proof -
  from assms(2) obtain k p1 where 1: "extractVisibilityTaskKey e p request = Ret (k, p1)"
    by (cases "extractVisibilityTaskKey e p request") (auto simp: beforeStep_def)
  from extractVisibilityTaskKey_cases [OF 1] assms(1) have c1: "consistent p1" by auto
  show ?thesis
  proof (cases "k = []")
    case True
    then show ?thesis using assms(2) 1 c1 by (simp add: beforeStep_def)
  next
    case False
    then obtain found where "GetAndDo e p1 k (\<lambda>key ackCh s. Ret (ackChan_start ackCh now s)) = Ret (found, p')"
      using assms(2) 1
      by (cases "GetAndDo e p1 k (\<lambda>key ackCh s. Ret (ackChan_start ackCh now s))")
         (auto simp: beforeStep_def)
    then show ?thesis using consistent_GetAndDo_start [OF c1] by blast
  qed
qed

lemma consistent_bulkBeforeAction:
  assumes "consistent p" and "bulkBeforeAction e p now requests = Ret p'"
  shows "consistent p'"
  using assms(2) unfolding bulkBeforeAction_def
  by (rule forEach_preserves [where P = consistent, rotated 2])
     (auto intro: consistent_beforeStep simp: assms(1))

lemma consistent_afterErrorStep:
  assumes "consistent p" and "afterErrorStep e now r p request = Ret p'"
  shows "consistent p'"
proof (cases r)
  case True
  then show ?thesis using assms by (auto simp: afterErrorStep_def)
next
  case False
  let ?p1 = "p\<lparr>metricsClient := IncCounter ElasticsearchBulkProcessorFailures (metricsClient p)\<rparr>"
  from assms(2) False obtain k p2 where 1: "extractVisibilityTaskKey e ?p1 request = Ret (k, p2)"
    by (cases "extractVisibilityTaskKey e ?p1 request") (auto simp: afterErrorStep_def)
  from extractVisibilityTaskKey_cases [OF 1] assms(1) have c2: "consistent p2" by auto
  show ?thesis
    using assms(2) False 1 c2 consistent_sendToAckChan [OF c2]
    by (cases "k = []") (auto simp: afterErrorStep_def)
qed

lemma consistent_afterStep:
  assumes "consistent p" and "afterStep e now idx p request = Ret p'"
  shows "consistent p'"
proof -
  from assms(2) obtain k p1 where 1: "extractVisibilityTaskKey e p request = Ret (k, p1)"
    by (cases "extractVisibilityTaskKey e p request") (auto simp: afterStep_def)
  from extractVisibilityTaskKey_cases [OF 1] assms(1) have c1: "consistent p1" by auto
  show ?thesis
  proof (cases "k = []")
    case True
    then show ?thesis using assms(2) 1 c1 by (simp add: afterStep_def)
  next
    case False
    then obtain d p2 where 2: "extractDocID e p1 request = Ret (d, p2)"
      using assms(2) 1 by (cases "extractDocID e p1 request") (auto simp: afterStep_def)
    from extractDocID_cases [OF 2] c1 have c2: "consistent p2" by auto
    have c3: "consistent (countCorrupted p2)" using c2 by simp
    have c4: "consistent (p2\<lparr>metricsClient :=
        IncCounter ElasticsearchBulkProcessorFailures (metricsClient p2)\<rparr>)" using c2 by simp
    show ?thesis
      using assms(2) 1 2 False c2 consistent_sendToAckChan [OF c2]
        consistent_sendToAckChan [OF c3] consistent_sendToAckChan [OF c4]
      by (auto simp: afterStep_def split: option.splits if_splits)
  qed
qed

lemma consistent_bulkAfterAction:
  assumes "consistent p" and "bulkAfterAction e p now requests response err = Ret p'"
  shows "consistent p'"
proof (cases err)
  case (Some er)
  with assms(2) have "forEach (afterErrorStep e now (IsRetryableError e er)) p requests = Ret p'"
    by (simp add: bulkAfterAction_def)
  then show ?thesis
    by (rule forEach_preserves [where P = consistent, rotated 2])
       (auto intro: consistent_afterErrorStep simp: assms(1))
next
  case None
  with assms(2) obtain resp where
    "forEach (afterStep e now (buildResponseIndex resp)) p requests = Ret p'"
    by (cases response) (auto simp: bulkAfterAction_def)
  then show ?thesis
    by (rule forEach_preserves [where P = consistent, rotated 2])
       (auto intro: consistent_afterStep simp: assms(1))
qed

lemma reachable_consistent: "reachable e p \<Longrightarrow> consistent p"
proof (induction rule: reachable.induct)
  case (reach_New c mc)
  then show ?case by (rule consistent_New)
next
  case (reach_Start p f p')
  then show ?case by (blast intro: consistent_Start)
next
  case (reach_Stop p f p')
  then show ?case by (blast intro: consistent_Stop)
next
  case (reach_Add p now request key ch p')
  then show ?case by (blast intro: consistent_Add)
next
  case (reach_Before p now requests p')
  then show ?case by (blast intro: consistent_bulkBeforeAction)
next
  case (reach_After p now requests response err p')
  then show ?case by (blast intro: consistent_bulkAfterAction)
next
  case (reach_receive p c v p')
  then show ?case by (blast intro: consistent_receive)
next
  case (reach_beforeStep p now request p')
  then show ?case by (blast intro: consistent_beforeStep)
next
  case (reach_afterErrorStep p now isRetryable request p')
  then show ?case by (blast intro: consistent_afterErrorStep)
next
  case (reach_afterStep p now responseIndex request p')
  then show ?case by (blast intro: consistent_afterStep)
qed

section \<open>Admission and de-duplication\<close>

lemma reachable_ex_started: "reachable e ex_started"
proof -
  have "Start (NewProcessor 4 ex_metrics) False = Ret ex_started"
    by (simp add: Start_eq NewProcessor_def ex_started_def)
  moreover have "indexerConcurrency (NewProcessor 4 ex_metrics) \<noteq> 0"
    by (simp add: NewProcessor_def)
  ultimately show ?thesis by (blast intro: reach_Start reach_New)
qed

lemma Add_ex_started: "Add ex_env ex_started 5 ex_request ''K'' = Ret (0, ex_pending)"
  by (simp add: Add_def newAckChan_def PutOrDo_def hashFn_def ex_started_def ex_pending_def)

lemma reachable_ex_pending: "reachable ex_env ex_pending"
  by (rule reach_Add [OF reachable_ex_started Add_ex_started])

text \<open>
  Claim C1. In a reachable state in which the processor is started (map and bulk processor
  are set; reachable states have a non-zero concurrency, so that the map's stripe selection
  returns), \<^verbatim>\<open>Add\<close> returns a fresh channel of capacity 1, and afterwards the map entry
  of the key points to a ticket with that channel, the instant of the call and a zero
  start instant; entries of other keys are untouched. If the map had no entry for the key,
  the new ticket is inserted and the request is appended to the bulk processor. If it had an
  entry, the channel of the existing ticket, which was empty, receives \<open>False\<close>; the map
  keeps the same pointer, the struct it points to is overwritten, and the bulk processor
  is left as it was.
\<close>

theorem Add_dedup:
  assumes reach: "reachable e p" and m: "mapToAckChan p = Some m" and q: "bulkProcessor p = Some q"
  shows "\<exists>p' m'. Add e p now request key = Ret (length (chans p), p')
      \<and> chans p' ! length (chans p) = make_chan 1
      \<and> length (chans p') = Suc (length (chans p))
      \<and> mapToAckChan p' = Some m'
      \<and> (\<exists>a. m' key = Some a \<and> ackChans p' ! a =
              \<lparr>ackChInternal = length (chans p), addedAt = now, startedAt = 0\<rparr>)
      \<and> (\<forall>k. k \<noteq> key \<longrightarrow> m' k = m k)
      \<and> (m key = None \<longrightarrow>
            m' key = Some (length (ackChans p))
          \<and> bulkProcessor p' = Some (q @ [request])
          \<and> (\<forall>c < length (chans p). chans p' ! c = chans p ! c))
      \<and> (\<forall>a. m key = Some a \<longrightarrow>
            m' key = Some a
          \<and> bulkProcessor p' = Some q
          \<and> sent (chans p ! chan_of p a) = []
          \<and> chans p' ! chan_of p a = (chans p ! chan_of p a)\<lparr>sent := [False]\<rparr>
          \<and> (\<forall>c < length (chans p). c \<noteq> chan_of p a \<longrightarrow> chans p' ! c = chans p ! c))"
proof -
  have con: "consistent p" using reach by (rule reachable_consistent)
  show ?thesis
  proof (cases "m key")
    case None
    show ?thesis
      unfolding Add_fresh [OF consistent_nonzero [OF con] m None q]
      by (simp add: None nth_append)
  next
    case (Some a)
    note pend = consistent_pending [OF con m Some] and va = consistent_valid [OF con m Some]
    from pend have snd: "chan_send (chans p ! chan_of p a) False
        = Some ((chans p ! chan_of p a)\<lparr>sent := [False]\<rparr>)"
      by (simp add: chan_send_empty)
    show ?thesis
      unfolding Add_duplicate [OF consistent_nonzero [OF con] m Some conjunct1 [OF va]
          conjunct2 [OF va] snd]
      using va pend by (simp add: Some m q nth_append)
  qed
qed

theorem Add_dedup_witness:
  "(\<exists>p'. Add ex_env ex_started 5 ex_request ''K'' = Ret (0, p')
        \<and> bulkProcessor p' = Some [ex_request]
        \<and> chans p' ! 0 = make_chan 1)
   \<and> (\<exists>p' m'. Add ex_env ex_pending 9 ex_request ''K'' = Ret (1, p')
        \<and> bulkProcessor p' = Some [ex_request]
        \<and> mapToAckChan p' = Some m' \<and> m' ''K'' = Some 0
        \<and> ackChans p' ! 0 = \<lparr>ackChInternal = 1, addedAt = 9, startedAt = 0\<rparr>
        \<and> sent (chans p' ! 0) = [False]
        \<and> chans p' ! 1 = make_chan 1)"
proof
  have m: "mapToAckChan ex_started = Some Map.empty" and q: "bulkProcessor ex_started = Some []"
    and l: "length (chans ex_started) = 0"
    by (simp_all add: ex_started_def)
  from Add_dedup [OF reachable_ex_started m q, where e = ex_env and now = 5
      and request = ex_request and key = "''K''"]
  obtain p' where "Add ex_env ex_started 5 ex_request ''K'' = Ret (length (chans ex_started), p')"
    and "chans p' ! length (chans ex_started) = make_chan 1"
    and "Map.empty ''K'' = None \<longrightarrow> bulkProcessor p' = Some ([] @ [ex_request])"
    by blast
  then show "\<exists>p'. Add ex_env ex_started 5 ex_request ''K'' = Ret (0, p')
        \<and> bulkProcessor p' = Some [ex_request] \<and> chans p' ! 0 = make_chan 1"
    unfolding l by simp
next
  have m: "mapToAckChan ex_pending = Some [''K'' \<mapsto> 0]"
    and q: "bulkProcessor ex_pending = Some [ex_request]"
    and l: "length (chans ex_pending) = 1" and c: "chan_of ex_pending 0 = 0"
    by (simp_all add: ex_pending_def chan_of_def)
  from Add_dedup [OF reachable_ex_pending m q, where now = 9 and request = ex_request
      and key = "''K''"]
  obtain p' m' where 1: "Add ex_env ex_pending 9 ex_request ''K'' = Ret (length (chans ex_pending), p')"
    and 2: "chans p' ! length (chans ex_pending) = make_chan 1"
    and 3: "mapToAckChan p' = Some m'"
    and 4: "\<exists>a. m' ''K'' = Some a \<and> ackChans p' ! a =
              \<lparr>ackChInternal = length (chans ex_pending), addedAt = 9, startedAt = 0\<rparr>"
    and 5: "\<forall>a. [''K'' \<mapsto> 0] ''K'' = Some a \<longrightarrow>
            m' ''K'' = Some a
          \<and> bulkProcessor p' = Some [ex_request]
          \<and> sent (chans ex_pending ! chan_of ex_pending a) = []
          \<and> chans p' ! chan_of ex_pending a = (chans ex_pending ! chan_of ex_pending a)\<lparr>sent := [False]\<rparr>
          \<and> (\<forall>c < length (chans ex_pending). c \<noteq> chan_of ex_pending a \<longrightarrow> chans p' ! c = chans ex_pending ! c)"
    by blast
  from 5 have 6: "m' ''K'' = Some 0" "bulkProcessor p' = Some [ex_request]"
    "chans p' ! 0 = (chans ex_pending ! 0)\<lparr>sent := [False]\<rparr>"
    by (simp_all add: c)
  from 4 6(1) have 7: "ackChans p' ! 0 = \<lparr>ackChInternal = 1, addedAt = 9, startedAt = 0\<rparr>"
    by (simp add: l)
  show "\<exists>p' m'. Add ex_env ex_pending 9 ex_request ''K'' = Ret (1, p')
        \<and> bulkProcessor p' = Some [ex_request]
        \<and> mapToAckChan p' = Some m' \<and> m' ''K'' = Some 0
        \<and> ackChans p' ! 0 = \<lparr>ackChInternal = 1, addedAt = 9, startedAt = 0\<rparr>
        \<and> sent (chans p' ! 0) = [False]
        \<and> chans p' ! 1 = make_chan 1"
    using 1 2 3 6 7 by (simp add: l)
qed

section \<open>Classification of response items\<close>

text \<open>
  Claim C3. \<^verbatim>\<open>isSuccess\<close> holds of a response item exactly when its status is at least
  200 and below 300, or is 409, or is 404 and the item has no error of type
  \<^verbatim>\<open>index_not_found_exception\<close> (no error at all, or an error of another type).
\<close>

theorem isSuccess_iff:
  "isSuccess item \<longleftrightarrow>
     (200 \<le> Status item \<and> Status item < 300)
     \<or> Status item = 409
     \<or> (Status item = 404 \<and>
         \<not> (\<exists>d. Error item = Some d \<and> Type d = ''index_not_found_exception''))"
  by (auto simp: isSuccess_def)

theorem isSuccess_iff_witness:
  "isSuccess \<lparr>item_Id = ''A'', Status = 409, Error = None\<rparr>
   \<and> \<not> isSuccess \<lparr>item_Id = ''A'', Status = 404,
         Error = Some \<lparr>Type = ''index_not_found_exception'', Reason = ''no such index''\<rparr>\<rparr>
   \<and> isSuccess \<lparr>item_Id = ''A'', Status = 404, Error = None\<rparr>
   \<and> isSuccess \<lparr>item_Id = ''A'', Status = 404,
         Error = Some \<lparr>Type = ''document_missing_exception'', Reason = ''gone''\<rparr>\<rparr>
   \<and> \<not> isSuccess \<lparr>item_Id = ''A'', Status = 500, Error = None\<rparr>"
  unfolding isSuccess_iff by simp

section \<open>Stripe selection\<close>







section \<open>The response index\<close>

lemma buildResponseIndex_flat:
  "buildResponseIndex response = foldl put_item Map.empty (all_items response)"
proof -
  have inner: "\<And>acc xs. foldl (\<lambda>r entry. put_item r (snd entry)) acc xs = foldl put_item acc (map snd xs)"
    by (simp add: foldl_map)
  have "\<And>acc. foldl (\<lambda>result m. foldl put_item result (map snd m)) acc xss
      = foldl put_item acc (map snd (concat xss))" for xss
    by (induction xss) simp_all
  then show ?thesis by (simp add: buildResponseIndex_def all_items_def inner)
qed

lemma put_item_keys:
  "(\<And>d it. acc d = Some it \<Longrightarrow> item_Id it = d) \<Longrightarrow> put_item acc x d = Some it \<Longrightarrow> item_Id it = d"
  by (auto simp: put_item_def split: option.splits if_splits)

lemma foldl_put_item:
  assumes "\<And>d it. acc d = Some it \<Longrightarrow> item_Id it = d"
  shows "(foldl put_item acc xs d = None \<longleftrightarrow> acc d = None \<and> (\<forall>x\<in>set xs. item_Id x \<noteq> d))
    \<and> (\<forall>it. foldl put_item acc xs d = Some it \<longrightarrow>
          item_Id it = d \<and> (acc d = Some it \<or> it \<in> set xs)
          \<and> (\<forall>x. acc d = Some x \<longrightarrow> Status x \<le> Status it)
          \<and> (\<forall>x\<in>set xs. item_Id x = d \<longrightarrow> Status x \<le> Status it))"
  using assms
proof (induction xs arbitrary: acc)
  case Nil
  then show ?case by auto
next
  case (Cons x xs)
  have keys: "\<And>d it. put_item acc x d = Some it \<Longrightarrow> item_Id it = d"
    using put_item_keys [of acc] Cons.prems by blast
  note IH = Cons.IH [of "put_item acc x", OF keys]
  have none: "put_item acc x d = None \<longleftrightarrow> acc d = None \<and> item_Id x \<noteq> d"
    by (auto simp: put_item_def split: option.splits)
  have some: "\<And>y. put_item acc x d = Some y \<Longrightarrow>
      (acc d = Some y \<or> y = x) \<and> (\<forall>z. acc d = Some z \<longrightarrow> Status z \<le> Status y)
      \<and> (item_Id x = d \<longrightarrow> Status x \<le> Status y)"
    by (auto simp: put_item_def split: option.splits if_splits)
  have first: "foldl put_item (put_item acc x) xs d = None \<longleftrightarrow>
      acc d = None \<and> (\<forall>x\<in>set (x # xs). item_Id x \<noteq> d)"
    using IH none by auto
  have second: "item_Id it = d \<and> (acc d = Some it \<or> it \<in> set (x # xs))
          \<and> (\<forall>z. acc d = Some z \<longrightarrow> Status z \<le> Status it)
          \<and> (\<forall>y\<in>set (x # xs). item_Id y = d \<longrightarrow> Status y \<le> Status it)"
    if it: "foldl put_item (put_item acc x) xs d = Some it" for it
  proof -
    from it IH have 1: "item_Id it = d" and 2: "put_item acc x d = Some it \<or> it \<in> set xs"
      and 3: "\<forall>y. put_item acc x d = Some y \<longrightarrow> Status y \<le> Status it"
      and 4: "\<forall>y\<in>set xs. item_Id y = d \<longrightarrow> Status y \<le> Status it" by blast+
    have a: "acc d = Some it \<or> it \<in> set (x # xs)" using 2 some by auto
    have nn: "acc d \<noteq> None \<or> item_Id x = d \<Longrightarrow> \<exists>y. put_item acc x d = Some y"
      using none by (cases "put_item acc x d") auto
    have b: "\<forall>z. acc d = Some z \<longrightarrow> Status z \<le> Status it"
    proof (intro allI impI)
      fix z assume z: "acc d = Some z"
      then obtain y where y: "put_item acc x d = Some y" using nn by auto
      with some [OF y] z 3 show "Status z \<le> Status it" by force
    qed
    have c: "\<forall>y\<in>set (x # xs). item_Id y = d \<longrightarrow> Status y \<le> Status it"
    proof (intro ballI impI)
      fix y assume y: "y \<in> set (x # xs)" "item_Id y = d"
      show "Status y \<le> Status it"
      proof (cases "y \<in> set xs")
        case True with 4 y show ?thesis by blast
      next
        case False
        then have "y = x" using y by simp
        then obtain w where w: "put_item acc x d = Some w" using nn y by auto
        with some [OF w] 3 y \<open>y = x\<close> show ?thesis by force
      qed
    qed
    show ?thesis using 1 a b c by blast
  qed
  show ?case
    unfolding foldl_Cons using first second by blast
qed

text \<open>
  Claim C5. The index \<^verbatim>\<open>buildResponseIndex\<close> builds has an entry for a document id exactly
  when some item of the response carries that id; the entry is one item of the response, it
  carries that id, and no item of the response with the same id has a greater status.
\<close>

theorem buildResponseIndex_greatest:
  "(buildResponseIndex response d = None \<longleftrightarrow> (\<forall>x\<in>set (all_items response). item_Id x \<noteq> d))
   \<and> (\<forall>it. buildResponseIndex response d = Some it \<longrightarrow>
         it \<in> set (all_items response) \<and> item_Id it = d
         \<and> (\<forall>x\<in>set (all_items response). item_Id x = d \<longrightarrow> Status x \<le> Status it))"
  using foldl_put_item [of Map.empty "all_items response" d]
  unfolding buildResponseIndex_flat by simp

theorem buildResponseIndex_greatest_witness:
  "buildResponseIndex ex_response ''A'' = Some \<lparr>item_Id = ''A'', Status = 500, Error = None\<rparr>
   \<and> buildResponseIndex ex_response ''X'' = None"
proof -
  have items: "all_items ex_response =
      [\<lparr>item_Id = ''A'', Status = 201, Error = None\<rparr>,
       \<lparr>item_Id = ''A'', Status = 500, Error = None\<rparr>,
       \<lparr>item_Id = ''B'', Status = 404, Error = None\<rparr>]"
    by (simp add: all_items_def ex_response_def)
  from buildResponseIndex_greatest [of ex_response "''A''"]
  obtain it where it: "buildResponseIndex ex_response ''A'' = Some it"
    and mem: "it \<in> set (all_items ex_response)"
    and top: "\<forall>x\<in>set (all_items ex_response). item_Id x = ''A'' \<longrightarrow> Status x \<le> Status it"
    unfolding items by (cases "buildResponseIndex ex_response ''A''") auto
  from mem top have "it = \<lparr>item_Id = ''A'', Status = 500, Error = None\<rparr>"
    unfolding items by auto
  moreover have "buildResponseIndex ex_response ''X'' = None"
    using buildResponseIndex_greatest [of ex_response "''X''"] unfolding items by simp
  ultimately show ?thesis using it by simp
qed

section \<open>Lifecycle\<close>

lemma status_sendToAckChan:
  "sendToAckChan e p now key ack = Ret p' \<Longrightarrow> status p' = status p"
  by (auto simp: sendToAckChan_def RemoveIf_def ackChan_done_def hashFn_def
      split: option.splits if_splits)

lemma status_Add: "Add e p now request key = Ret (ch, p') \<Longrightarrow> status p' = status p"
  by (auto simp: Add_def Let_def newAckChan_def PutOrDo_def replaceExisting_def ackChan_done_def
      hashFn_def split: option.splits if_splits)

lemma status_extractVisibilityTaskKey:
  "extractVisibilityTaskKey e p request = Ret (k, p') \<Longrightarrow> status p' = status p"
  by (auto dest!: extractVisibilityTaskKey_cases simp: countCorrupted_def)

lemma status_extractDocID:
  "extractDocID e p request = Ret (k, p') \<Longrightarrow> status p' = status p"
  by (auto dest!: extractDocID_cases simp: countCorrupted_def)

lemma status_beforeStep:
  assumes "beforeStep e now p request = Ret p'"
  shows "status p' = status p"
proof -
  from assms obtain k p1 where 1: "extractVisibilityTaskKey e p request = Ret (k, p1)"
    by (cases "extractVisibilityTaskKey e p request") (auto simp: beforeStep_def)
  note s1 = status_extractVisibilityTaskKey [OF 1]
  show ?thesis
    using assms 1 s1
    by (cases "k = []")
       (auto simp: beforeStep_def GetAndDo_def ackChan_start_def hashFn_def
          split: option.splits if_splits)
qed

lemma status_afterErrorStep:
  assumes "afterErrorStep e now r p request = Ret p'"
  shows "status p' = status p"
proof (cases r)
  case True
  then show ?thesis using assms by (auto simp: afterErrorStep_def)
next
  case False
  let ?p1 = "p\<lparr>metricsClient := IncCounter ElasticsearchBulkProcessorFailures (metricsClient p)\<rparr>"
  from assms False obtain k p2 where 1: "extractVisibilityTaskKey e ?p1 request = Ret (k, p2)"
    by (cases "extractVisibilityTaskKey e ?p1 request") (auto simp: afterErrorStep_def)
  show ?thesis
    using assms False 1 status_extractVisibilityTaskKey [OF 1] status_sendToAckChan [of e p2 now k False p']
    by (cases "k = []") (auto simp: afterErrorStep_def)
qed

lemma status_afterStep:
  assumes "afterStep e now idx p request = Ret p'"
  shows "status p' = status p"
proof -
  from assms obtain k p1 where 1: "extractVisibilityTaskKey e p request = Ret (k, p1)"
    by (cases "extractVisibilityTaskKey e p request") (auto simp: afterStep_def)
  note s1 = status_extractVisibilityTaskKey [OF 1]
  show ?thesis
  proof (cases "k = []")
    case True
    then show ?thesis using assms 1 s1 by (simp add: afterStep_def)
  next
    case False
    then obtain d p2 where 2: "extractDocID e p1 request = Ret (d, p2)"
      using assms 1 by (cases "extractDocID e p1 request") (auto simp: afterStep_def)
    note s2 = status_extractDocID [OF 2]
    show ?thesis
      using assms 1 2 False s1 s2
      by (auto simp: afterStep_def countCorrupted_def split: option.splits if_splits
          dest!: status_sendToAckChan)
  qed
qed

lemma status_forEach:
  assumes "\<And>s x s'. body s x = Ret s' \<Longrightarrow> status s' = status s"
    and "forEach body p xs = Ret p'"
  shows "status p' = status p"
  using assms(2)
  by (rule forEach_preserves [where P = "\<lambda>s. status s = status p", rotated 2])
     (auto dest: assms(1))

text \<open>
  Claim C6. \<^verbatim>\<open>Start\<close> moves an initialized processor to started (or ends in
  \<^verbatim>\<open>logger.Fatal\<close> when the bulk processor cannot be run) and returns any other
  processor unchanged; \<^verbatim>\<open>Stop\<close> moves a started processor to stopped, clearing map and
  bulk processor, and returns any other processor unchanged; the comparison and the
  assignment of the status are one step. \<^verbatim>\<open>Add\<close> and the two hooks leave the status
  as it is, so the status only ever moves from initialized to started and from started to
  stopped.
\<close>

theorem lifecycle_one_way:
  "(status p = DaemonStatusInitialized \<longrightarrow>
      Start p runFails = (if runFails then Fatal
         else Ret (p\<lparr>status := DaemonStatusStarted, mapToAckChan := Some Map.empty,
                     bulkProcessor := Some []\<rparr>)))
   \<and> (status p \<noteq> DaemonStatusInitialized \<longrightarrow> Start p runFails = Ret p)
   \<and> (status p = DaemonStatusStarted \<longrightarrow> bulkProcessor p \<noteq> None \<longrightarrow>
      Stop p stopFails = (if stopFails then Fatal
         else Ret (p\<lparr>status := DaemonStatusStopped, mapToAckChan := None,
                     bulkProcessor := None\<rparr>)))
   \<and> (status p \<noteq> DaemonStatusStarted \<longrightarrow> Stop p stopFails = Ret p)
   \<and> (\<forall>ch p'. Add e p now request key = Ret (ch, p') \<longrightarrow> status p' = status p)
   \<and> (\<forall>p'. bulkBeforeAction e p now requests = Ret p' \<longrightarrow> status p' = status p)
   \<and> (\<forall>p'. bulkAfterAction e p now requests response err = Ret p' \<longrightarrow> status p' = status p)"
proof (intro conjI allI impI)
  show "Start p runFails = (if runFails then Fatal
         else Ret (p\<lparr>status := DaemonStatusStarted, mapToAckChan := Some Map.empty,
                     bulkProcessor := Some []\<rparr>))"
    if "status p = DaemonStatusInitialized"
    using that by (simp add: Start_eq)
  show "Start p runFails = Ret p" if "status p \<noteq> DaemonStatusInitialized"
    using that by (simp add: Start_eq)
  show "Stop p stopFails = (if stopFails then Fatal
         else Ret (p\<lparr>status := DaemonStatusStopped, mapToAckChan := None,
                     bulkProcessor := None\<rparr>))"
    if "status p = DaemonStatusStarted" "bulkProcessor p \<noteq> None"
    using that by (auto simp: Stop_eq)
  show "Stop p stopFails = Ret p" if "status p \<noteq> DaemonStatusStarted"
    using that by (simp add: Stop_eq)
  show "status p' = status p" if "Add e p now request key = Ret (ch, p')" for ch p'
    using that by (rule status_Add)
  show "status p' = status p" if "bulkBeforeAction e p now requests = Ret p'" for p'
    using status_forEach [OF status_beforeStep that [unfolded bulkBeforeAction_def]] by simp
  show "status p' = status p" if *: "bulkAfterAction e p now requests response err = Ret p'" for p'
  proof (cases err)
    case (Some er)
    with * have "forEach (afterErrorStep e now (IsRetryableError e er)) p requests = Ret p'"
      by (simp add: bulkAfterAction_def)
    from status_forEach [OF status_afterErrorStep this] show ?thesis by simp
  next
    case None
    with * obtain resp where
      "forEach (afterStep e now (buildResponseIndex resp)) p requests = Ret p'"
      by (cases response) (auto simp: bulkAfterAction_def)
    from status_forEach [OF status_afterStep this] show ?thesis by simp
  qed
qed


theorem lifecycle_one_way_witness:
  "Start (NewProcessor 4 ex_metrics) False = Ret ex_started
   \<and> Start ex_started False = Ret ex_started
   \<and> Stop (NewProcessor 4 ex_metrics) False = Ret (NewProcessor 4 ex_metrics)
   \<and> Stop ex_started False =
        Ret (ex_started\<lparr>status := DaemonStatusStopped, mapToAckChan := None,
                          bulkProcessor := None\<rparr>)"
proof -
  note new = lifecycle_one_way [where p = "NewProcessor 4 ex_metrics" and runFails = False
      and stopFails = False]
  note started = lifecycle_one_way [where p = ex_started and runFails = False
      and stopFails = False]
  have 1: "Start (NewProcessor 4 ex_metrics) False = Ret ex_started"
    using new [THEN conjunct1] by (simp add: NewProcessor_def ex_started_def)
  have 2: "Start ex_started False = Ret ex_started"
    using started [THEN conjunct2, THEN conjunct1] by (simp add: ex_started_def)
  have 3: "Stop (NewProcessor 4 ex_metrics) False = Ret (NewProcessor 4 ex_metrics)"
    using new [THEN conjunct2, THEN conjunct2, THEN conjunct2, THEN conjunct1]
    by (simp add: NewProcessor_def)
  have 4: "Stop ex_started False =
        Ret (ex_started\<lparr>status := DaemonStatusStopped, mapToAckChan := None,
                          bulkProcessor := None\<rparr>)"
    using started [THEN conjunct2, THEN conjunct2, THEN conjunct1]
    by (simp add: ex_started_def)
  show ?thesis using 1 2 3 4 by simp
qed

lemma Add_started_returns:
  assumes con: "consistent p" and m: "mapToAckChan p = Some m" and q: "bulkProcessor p = Some q"
  shows "\<exists>ch p'. Add e p now request key = Ret (ch, p')"
proof (cases "m key")
  case None
  from Add_fresh [OF consistent_nonzero [OF con] m None q] show ?thesis by blast
next
  case (Some a)
  note pend = consistent_pending [OF con m Some] and va = consistent_valid [OF con m Some]
  from pend have "chan_send (chans p ! chan_of p a) False
      = Some ((chans p ! chan_of p a)\<lparr>sent := [False]\<rparr>)"
    by (simp add: chan_send_empty)
  from Add_duplicate [OF consistent_nonzero [OF con] m Some conjunct1 [OF va] conjunct2 [OF va]
      this]
  show ?thesis by blast
qed

lemma Add_Panic_iff:
  "Add e p now request key = Panic \<longleftrightarrow>
     mapToAckChan p = None \<or> indexerConcurrency p = 0
     \<or> (bulkProcessor p = None \<and> (\<exists>m. mapToAckChan p = Some m \<and> m key = None))"
proof (cases "mapToAckChan p")
  case None
  then show ?thesis by (simp add: Add_def newAckChan_def PutOrDo_def)
next
  case (Some m)
  show ?thesis
  proof (cases "indexerConcurrency p = 0")
    case True
    with Some show ?thesis by (simp add: Add_def newAckChan_def PutOrDo_def hashFn_def)
  next
    case nz: False
    show ?thesis
    proof (cases "m key")
      case None
      with Some nz show ?thesis
        by (simp add: Add_def newAckChan_def PutOrDo_def hashFn_def split: option.splits)
    next
      case (Some a)
      with \<open>mapToAckChan p = Some m\<close> nz show ?thesis
        by (simp add: Add_def newAckChan_def PutOrDo_def hashFn_def replaceExisting_def
            ackChan_done_def Let_def split: option.splits)
    qed
  qed
qed

text \<open>
  Claim C10. \<^verbatim>\<open>Add\<close> panics exactly when the map is nil, or the concurrency is 0 (the
  stripe selection of the map divides by it), or the key is not in the map and the bulk
  processor is nil: the bulk processor is dereferenced only when the key is new. In every
  state reachable by complete calls from a processor with a non-zero concurrency,
  \<^verbatim>\<open>Add\<close> returns exactly when the status is started; in any other status the map and
  the bulk processor are nil and \<^verbatim>\<open>Add\<close> panics on the nil map; in the started status
  both are set.
\<close>

theorem Add_total_iff_started:
  "(Add e p now request key = Panic \<longleftrightarrow>
      mapToAckChan p = None \<or> indexerConcurrency p = 0
      \<or> (bulkProcessor p = None \<and> (\<exists>m. mapToAckChan p = Some m \<and> m key = None)))
   \<and> (reachable e p \<longrightarrow>
        ((\<exists>ch p'. Add e p now request key = Ret (ch, p')) \<longleftrightarrow> status p = DaemonStatusStarted)
      \<and> (status p \<noteq> DaemonStatusStarted \<longrightarrow>
           mapToAckChan p = None \<and> bulkProcessor p = None \<and> Add e p now request key = Panic)
      \<and> (status p = DaemonStatusStarted \<longrightarrow>
           mapToAckChan p \<noteq> None \<and> bulkProcessor p \<noteq> None \<and> indexerConcurrency p \<noteq> 0))"
proof -
  have B: "((\<exists>ch p'. Add e p now request key = Ret (ch, p')) \<longleftrightarrow> status p = DaemonStatusStarted)
      \<and> (status p \<noteq> DaemonStatusStarted \<longrightarrow>
           mapToAckChan p = None \<and> bulkProcessor p = None \<and> Add e p now request key = Panic)
      \<and> (status p = DaemonStatusStarted \<longrightarrow>
           mapToAckChan p \<noteq> None \<and> bulkProcessor p \<noteq> None \<and> indexerConcurrency p \<noteq> 0)"
    if r: "reachable e p"
  proof -
    have con: "consistent p" using r by (rule reachable_consistent)
    then have life: "mapToAckChan p \<noteq> None \<longleftrightarrow> status p = DaemonStatusStarted"
      "bulkProcessor p \<noteq> None \<longleftrightarrow> status p = DaemonStatusStarted"
      by (simp_all add: consistent_def lifecycle_ok_def)
    note nz = consistent_nonzero [OF con]
    have nil: "Add e p now request key = Panic" if "mapToAckChan p = None"
      using that by (simp add: Add_Panic_iff)
    have ret: "\<exists>ch p'. Add e p now request key = Ret (ch, p')" if "status p = DaemonStatusStarted"
    proof -
      from that life obtain m q where m: "mapToAckChan p = Some m" and q: "bulkProcessor p = Some q"
        by auto
      from Add_started_returns [OF con m q] show ?thesis .
    qed
    show ?thesis using life nil ret nz by auto
  qed
  show ?thesis using Add_Panic_iff [of e p now request key] B by blast
qed

theorem Add_total_iff_started_witness:
  "(\<exists>ch p'. Add ex_env ex_started 5 ex_request ''K'' = Ret (ch, p'))
   \<and> status ex_started = DaemonStatusStarted
   \<and> Add ex_env (NewProcessor 4 ex_metrics) 5 ex_request ''K'' = Panic
   \<and> mapToAckChan (NewProcessor 4 ex_metrics) = None"
proof -
  have s: "status ex_started = DaemonStatusStarted"
    and n: "mapToAckChan (NewProcessor 4 ex_metrics) = None"
    by (simp_all add: ex_started_def NewProcessor_def)
  from Add_total_iff_started [where e = ex_env and p = ex_started and now = 5
      and request = ex_request and key = "''K''", THEN conjunct2, THEN mp,
      OF reachable_ex_started, THEN conjunct1] s
  have 1: "\<exists>ch p'. Add ex_env ex_started 5 ex_request ''K'' = Ret (ch, p')" by blast
  from Add_total_iff_started [where e = ex_env and p = "NewProcessor 4 ex_metrics" and now = 5
      and request = ex_request and key = "''K''", THEN conjunct1] n
  have 2: "Add ex_env (NewProcessor 4 ex_metrics) 5 ex_request ''K'' = Panic" by blast
  show ?thesis using 1 2 s n by blast
qed

lemma interleaved_ex_started: "interleaved e ex_started"
proof -
  have "Start (NewProcessor 4 ex_metrics) False = Ret ex_started"
    by (simp add: Start_eq NewProcessor_def ex_started_def)
  then show ?thesis by (blast intro: inter_Start inter_New)
qed

lemma interleaved_ex_starting: "interleaved e ex_starting"
proof -
  have "CompareAndSwapStatus (NewProcessor 4 ex_metrics)
          DaemonStatusInitialized DaemonStatusStarted = (True, ex_starting)"
    by (simp add: CompareAndSwapStatus_def NewProcessor_def ex_starting_def)
  then show ?thesis by (blast intro: inter_swap_Start inter_New)
qed

lemma interleaved_ex_stopping: "interleaved e ex_stopping"
proof -
  have "CompareAndSwapStatus ex_started DaemonStatusStarted DaemonStatusStopped
      = (True, ex_stopping)"
    by (simp add: CompareAndSwapStatus_def ex_started_def ex_stopping_def)
  then show ?thesis by (blast intro: inter_swap_Stop interleaved_ex_started)
qed

lemma interleaved_ex_zero_started: "interleaved e ex_zero_started"
proof -
  have "Start (NewProcessor 0 ex_metrics) False = Ret ex_zero_started"
    by (simp add: Start_eq NewProcessor_def ex_zero_started_def)
  then show ?thesis by (blast intro: inter_Start inter_New)
qed

text \<open>
  The status alone does not decide whether \<^verbatim>\<open>Add\<close> returns. After the compare-and-swap
  of \<^verbatim>\<open>Start\<close> and before the map is assigned the status is started and \<^verbatim>\<open>Add\<close>
  panics; after the compare-and-swap of \<^verbatim>\<open>Stop\<close> and before the map is cleared the
  status is stopped and \<^verbatim>\<open>Add\<close> returns; a started processor configured with
  concurrency 0 panics in \<^verbatim>\<open>Add\<close>; and with a nil bulk processor \<^verbatim>\<open>Add\<close> of a key
  that is in the map returns.
\<close>

theorem Add_status_mismatch:
  "interleaved ex_env ex_starting \<and> status ex_starting = DaemonStatusStarted
     \<and> Add ex_env ex_starting 5 ex_request ''K'' = Panic
   \<and> interleaved ex_env ex_stopping \<and> status ex_stopping = DaemonStatusStopped
     \<and> Add ex_env ex_stopping 5 ex_request ''K''
         = Ret (0, ex_pending\<lparr>status := DaemonStatusStopped\<rparr>)
   \<and> interleaved ex_env ex_zero_started \<and> status ex_zero_started = DaemonStatusStarted
     \<and> Add ex_env ex_zero_started 5 ex_request ''K'' = Panic
   \<and> bulkProcessor (ex_pending\<lparr>bulkProcessor := None\<rparr>) = None
     \<and> Add ex_env (ex_pending\<lparr>bulkProcessor := None\<rparr>) 6 ex_request ''K''
         = Ret (1, ex_pending
                     \<lparr>bulkProcessor := None,
                      metricsClient :=
                        RecordTimer ElasticsearchBulkProcessorRequestLatency 1 ex_metrics,
                      ackChans := [\<lparr>ackChInternal = 1, addedAt = 6, startedAt = 0\<rparr>,
                                   \<lparr>ackChInternal = 1, addedAt = 6, startedAt = 0\<rparr>],
                      chans := [(make_chan 1)\<lparr>sent := [False]\<rparr>, make_chan 1]\<rparr>)"
proof -
  have 1: "status ex_starting = DaemonStatusStarted"
    "Add ex_env ex_starting 5 ex_request ''K'' = Panic"
    by (simp_all add: Add_Panic_iff ex_starting_def CompareAndSwapStatus_def NewProcessor_def)
  have 2: "status ex_stopping = DaemonStatusStopped"
    "Add ex_env ex_stopping 5 ex_request ''K'' = Ret (0, ex_pending\<lparr>status := DaemonStatusStopped\<rparr>)"
    by (simp_all add: Add_def newAckChan_def PutOrDo_def hashFn_def ex_started_def
        ex_pending_def ex_stopping_def CompareAndSwapStatus_def)
  have 3: "status ex_zero_started = DaemonStatusStarted"
    "Add ex_env ex_zero_started 5 ex_request ''K'' = Panic"
    by (simp_all add: Add_Panic_iff ex_zero_started_def)
  have 4: "bulkProcessor (ex_pending\<lparr>bulkProcessor := None\<rparr>) = None"
    "Add ex_env (ex_pending\<lparr>bulkProcessor := None\<rparr>) 6 ex_request ''K''
         = Ret (1, ex_pending
                     \<lparr>bulkProcessor := None,
                      metricsClient :=
                        RecordTimer ElasticsearchBulkProcessorRequestLatency 1 ex_metrics,
                      ackChans := [\<lparr>ackChInternal = 1, addedAt = 6, startedAt = 0\<rparr>,
                                   \<lparr>ackChInternal = 1, addedAt = 6, startedAt = 0\<rparr>],
                      chans := [(make_chan 1)\<lparr>sent := [False]\<rparr>, make_chan 1]\<rparr>)"
    by (simp_all add: Add_def newAckChan_def PutOrDo_def hashFn_def replaceExisting_def
        ackChan_done_def chan_send_def make_chan_def recordDone_def RecordTimer_def
        ex_pending_def ex_env_def)
  show ?thesis
    using 1 2 3 4 interleaved_ex_starting interleaved_ex_stopping interleaved_ex_zero_started
    by blast
qed

section \<open>One acknowledgement per ticket\<close>

lemma sent_cases:
  "length xs \<le> 1 \<Longrightarrow> xs = [] \<or> (\<exists>v. xs = [v])"
  by (cases xs) auto

text \<open>
  Claim C2. In every reachable state, each channel either holds no value yet, and then the
  map still refers to it or the processor is stopped, or it has been sent exactly one
  value, and then the map no longer refers to it. Moreover \<^verbatim>\<open>sendToAckChan\<close> on a key
  with a ticket is one step that returns, sends the acknowledgement into the ticket's
  channel, which was empty, removes the key from the map, leaves the channel unreferenced
  and touches no other channel.
\<close>

theorem ack_exactly_once:
  assumes "reachable e p"
  shows "(\<forall>c<length (chans p).
            (sent (chans p ! c) = [] \<and> (referenced p c \<or> status p = DaemonStatusStopped))
          \<or> ((\<exists>v. sent (chans p ! c) = [v]) \<and> \<not> referenced p c))
     \<and> (\<forall>m key a. mapToAckChan p = Some m \<longrightarrow> m key = Some a \<longrightarrow>
            chan_of p a < length (chans p)
          \<and> sent (chans p ! chan_of p a) = []
          \<and> (\<exists>p'. sendToAckChan e p now key ack = Ret p'
                \<and> mapToAckChan p' = Some (m(key := None))
                \<and> sent (chans p' ! chan_of p a) = [ack]
                \<and> \<not> referenced p' (chan_of p a)
                \<and> (\<forall>c<length (chans p). c \<noteq> chan_of p a \<longrightarrow> chans p' ! c = chans p ! c)))"
proof -
  have con: "consistent p" using assms by (rule reachable_consistent)
  have one: "(sent (chans p ! c) = [] \<and> (referenced p c \<or> status p = DaemonStatusStopped))
          \<or> ((\<exists>v. sent (chans p ! c) = [v]) \<and> \<not> referenced p c)"
    if "c < length (chans p)" for c
    using consistent_chan [OF con that] sent_cases [of "sent (chans p ! c)"] by auto
  have two: "chan_of p a < length (chans p)
          \<and> sent (chans p ! chan_of p a) = []
          \<and> (\<exists>p'. sendToAckChan e p now key ack = Ret p'
                \<and> mapToAckChan p' = Some (m(key := None))
                \<and> sent (chans p' ! chan_of p a) = [ack]
                \<and> \<not> referenced p' (chan_of p a)
                \<and> (\<forall>c<length (chans p). c \<noteq> chan_of p a \<longrightarrow> chans p' ! c = chans p ! c))"
    if m: "mapToAckChan p = Some m" and a: "m key = Some a" for m key a
  proof -
    let ?c = "chan_of p a"
    note pend = consistent_pending [OF con m a] and va = consistent_valid [OF con m a]
    from pend have snd: "chan_send (chans p ! ?c) ack = Some ((chans p ! ?c)\<lparr>sent := [ack]\<rparr>)"
      by (simp add: chan_send_empty)
    let ?p' = "p\<lparr>chans := (chans p)[?c := (chans p ! ?c)\<lparr>sent := [ack]\<rparr>],
            metricsClient := recordDone (ackChans p ! a) now (metricsClient p),
            mapToAckChan := Some (m(key := None))\<rparr>"
    have ret: "sendToAckChan e p now key ack = Ret ?p'"
      by (rule sendToAckChan_present [OF consistent_nonzero [OF con] m a snd])
    then have con': "consistent ?p'" by (rule consistent_sendToAckChan [OF con])
    have sent': "sent (chans ?p' ! ?c) = [ack]" using va by simp
    have len: "?c < length (chans ?p')" using va by simp
    have "\<not> referenced ?p' ?c"
      using consistent_chan [OF con' len] sent' by auto
    moreover have "\<forall>c<length (chans p). c \<noteq> ?c \<longrightarrow> chans ?p' ! c = chans p ! c"
      by simp
    moreover have "mapToAckChan ?p' = Some (m(key := None))" by simp
    ultimately show ?thesis using ret sent' va pend by blast
  qed
  show ?thesis using one two by blast
qed

theorem ack_exactly_once_witness:
  "sent (chans ex_pending ! 0) = [] \<and> referenced ex_pending 0
   \<and> (\<exists>p'. sendToAckChan ex_env ex_pending 9 ''K'' True = Ret p'
         \<and> mapToAckChan p' = Some Map.empty
         \<and> sent (chans p' ! 0) = [True]
         \<and> \<not> referenced p' 0)"
proof -
  have m: "mapToAckChan ex_pending = Some [''K'' \<mapsto> 0]" and k: "[''K'' \<mapsto> (0::nat)] ''K'' = Some 0"
    and c: "chan_of ex_pending 0 = 0" and e: "[''K'' \<mapsto> (0::nat)](''K'' := None) = Map.empty"
    by (simp_all add: ex_pending_def chan_of_def)
  have r: "referenced ex_pending 0" by (rule referencedI [OF m k c])
  from ack_exactly_once [OF reachable_ex_pending, where now = 9 and ack = True,
      THEN conjunct2, rule_format, OF m k]
  show ?thesis unfolding c e using r by blast
qed

section \<open>Key extraction\<close>

lemma extractDocID_returns:
  "(\<exists>d p'. extractDocID e p request = Ret (d, p')) \<longleftrightarrow> extractDocID e p request \<noteq> Panic"
  by (auto simp: extractDocID_def split: sum.splits list.splits option.splits json.splits)

lemma extractVisibilityTaskKey_returns:
  "well_typed e request \<longleftrightarrow> (\<exists>k p'. extractVisibilityTaskKey e p request = Ret (k, p'))"
  by (auto simp: well_typed_def extractVisibilityTaskKey_def extractDocID_def
      split: sum.splits list.splits option.splits json.splits)

lemma extractVisibilityTaskKey_Panic:
  "\<not> well_typed e request \<longleftrightarrow> extractVisibilityTaskKey e p request = Panic"
  by (auto simp: well_typed_def extractVisibilityTaskKey_def extractDocID_def
      split: sum.splits list.splits option.splits json.splits)

text \<open>
  Claim C8, as amended. \<^verbatim>\<open>extractVisibilityTaskKey\<close> returns exactly for the well-typed
  requests and panics for the others. When it returns, it leaves the processor as it was
  or returns the empty key with the corrupted-data counter incremented by one. It returns
  the empty key and counts when \<^verbatim>\<open>Source\<close> fails, when the body (or, for a request that
  has not two lines, the action line) does not decode, and when the field
  \<^verbatim>\<open>VisibilityTaskKey\<close> (or \<^verbatim>\<open>_id\<close>) is missing; it returns the string under
  \<^verbatim>\<open>VisibilityTaskKey\<close> for a request of two lines and the string under the first
  \<^verbatim>\<open>_id\<close> for any other request.
\<close>

theorem extractVisibilityTaskKey_total:
  "(well_typed e request \<longleftrightarrow> (\<exists>k p'. extractVisibilityTaskKey e p request = Ret (k, p')))
   \<and> (\<not> well_typed e request \<longleftrightarrow> extractVisibilityTaskKey e p request = Panic)
   \<and> (\<forall>k p'. extractVisibilityTaskKey e p request = Ret (k, p') \<longrightarrow>
          p' = p \<or> (k = [] \<and> p' = countCorrupted p))
   \<and> counters (metricsClient (countCorrupted p)) ElasticsearchBulkProcessorCorruptedData
        = counters (metricsClient p) ElasticsearchBulkProcessorCorruptedData + 1
   \<and> (\<forall>err. Source request = Inl err \<longrightarrow>
          extractVisibilityTaskKey e p request = Ret ([], countCorrupted p))
   \<and> (\<forall>req. Source request = Inr req \<longrightarrow> length req = 2 \<longrightarrow>
          UnmarshalBody e (req ! 1) = None \<longrightarrow>
          extractVisibilityTaskKey e p request = Ret ([], countCorrupted p))
   \<and> (\<forall>req body. Source request = Inr req \<longrightarrow> length req = 2 \<longrightarrow>
          UnmarshalBody e (req ! 1) = Some body \<longrightarrow> body VisibilityTaskKey = None \<longrightarrow>
          extractVisibilityTaskKey e p request = Ret ([], countCorrupted p))
   \<and> (\<forall>req body s. Source request = Inr req \<longrightarrow> length req = 2 \<longrightarrow>
          UnmarshalBody e (req ! 1) = Some body \<longrightarrow>
          body VisibilityTaskKey = Some (JString s) \<longrightarrow>
          extractVisibilityTaskKey e p request = Ret (s, p))
   \<and> (\<forall>req. Source request = Inr req \<longrightarrow> length req \<noteq> 2 \<longrightarrow> req \<noteq> [] \<longrightarrow>
          UnmarshalAction e (hd req) = None \<longrightarrow>
          extractVisibilityTaskKey e p request = Ret ([], countCorrupted p))
   \<and> (\<forall>req ops. Source request = Inr req \<longrightarrow> length req \<noteq> 2 \<longrightarrow> req \<noteq> [] \<longrightarrow>
          UnmarshalAction e (hd req) = Some ops \<longrightarrow> first_id ops = None \<longrightarrow>
          extractVisibilityTaskKey e p request = Ret ([], countCorrupted p))
   \<and> (\<forall>req ops s. Source request = Inr req \<longrightarrow> length req \<noteq> 2 \<longrightarrow> req \<noteq> [] \<longrightarrow>
          UnmarshalAction e (hd req) = Some ops \<longrightarrow> first_id ops = Some (JString s) \<longrightarrow>
          extractVisibilityTaskKey e p request = Ret (s, p))"
proof -
  have 1: "well_typed e request \<longleftrightarrow> (\<exists>k p'. extractVisibilityTaskKey e p request = Ret (k, p'))"
    by (rule extractVisibilityTaskKey_returns)
  have 2: "\<not> well_typed e request \<longleftrightarrow> extractVisibilityTaskKey e p request = Panic"
    by (rule extractVisibilityTaskKey_Panic)
  have 3: "\<forall>k p'. extractVisibilityTaskKey e p request = Ret (k, p') \<longrightarrow>
          p' = p \<or> (k = [] \<and> p' = countCorrupted p)"
    using extractVisibilityTaskKey_cases by blast
  have 4: "counters (metricsClient (countCorrupted p)) ElasticsearchBulkProcessorCorruptedData
        = counters (metricsClient p) ElasticsearchBulkProcessorCorruptedData + 1"
    by (simp add: countCorrupted_def IncCounter_def AddCounter_def)
  have 5: "\<forall>err. Source request = Inl err \<longrightarrow>
          extractVisibilityTaskKey e p request = Ret ([], countCorrupted p)"
    by (simp add: extractVisibilityTaskKey_def)
  have 6: "\<forall>req. Source request = Inr req \<longrightarrow> length req = 2 \<longrightarrow>
          UnmarshalBody e (req ! 1) = None \<longrightarrow>
          extractVisibilityTaskKey e p request = Ret ([], countCorrupted p)"
    by (simp add: extractVisibilityTaskKey_def)
  have 7: "\<forall>req body. Source request = Inr req \<longrightarrow> length req = 2 \<longrightarrow>
          UnmarshalBody e (req ! 1) = Some body \<longrightarrow> body VisibilityTaskKey = None \<longrightarrow>
          extractVisibilityTaskKey e p request = Ret ([], countCorrupted p)"
    by (simp add: extractVisibilityTaskKey_def)
  have 8: "\<forall>req body s. Source request = Inr req \<longrightarrow> length req = 2 \<longrightarrow>
          UnmarshalBody e (req ! 1) = Some body \<longrightarrow>
          body VisibilityTaskKey = Some (JString s) \<longrightarrow>
          extractVisibilityTaskKey e p request = Ret (s, p)"
    by (simp add: extractVisibilityTaskKey_def)
  have 9: "\<forall>req. Source request = Inr req \<longrightarrow> length req \<noteq> 2 \<longrightarrow> req \<noteq> [] \<longrightarrow>
          UnmarshalAction e (hd req) = None \<longrightarrow>
          extractVisibilityTaskKey e p request = Ret ([], countCorrupted p)"
    by (simp add: extractVisibilityTaskKey_def extractDocID_def split: list.splits)
  have 10: "\<forall>req ops. Source request = Inr req \<longrightarrow> length req \<noteq> 2 \<longrightarrow> req \<noteq> [] \<longrightarrow>
          UnmarshalAction e (hd req) = Some ops \<longrightarrow> first_id ops = None \<longrightarrow>
          extractVisibilityTaskKey e p request = Ret ([], countCorrupted p)"
    by (simp add: extractVisibilityTaskKey_def extractDocID_def split: list.splits)
  have 11: "\<forall>req ops s. Source request = Inr req \<longrightarrow> length req \<noteq> 2 \<longrightarrow> req \<noteq> [] \<longrightarrow>
          UnmarshalAction e (hd req) = Some ops \<longrightarrow> first_id ops = Some (JString s) \<longrightarrow>
          extractVisibilityTaskKey e p request = Ret (s, p)"
    by (simp add: extractVisibilityTaskKey_def extractDocID_def split: list.splits)
  show ?thesis
    by (intro conjI) (fact 1 2 3 4 5 6 7 8 9 10 11)+
qed

theorem extractVisibilityTaskKey_total_witness:
  "extractVisibilityTaskKey ex_env ex_started ex_index_request = Ret (''K'', ex_started)
   \<and> well_typed ex_env ex_index_request
   \<and> extractVisibilityTaskKey ex_env ex_started \<lparr>Source = Inl ''closed''\<rparr>
       = Ret ([], countCorrupted ex_started)"
proof -
  note T = extractVisibilityTaskKey_total [where e = ex_env and p = ex_started]
  have src: "Source ex_index_request = Inr [''index A'', ''body K'']"
    and len: "length [''index A'', ''body K''] = 2"
    and body: "UnmarshalBody ex_env ([''index A'', ''body K''] ! 1)
        = Some [VisibilityTaskKey \<mapsto> JString ''K'']"
    and field: "[VisibilityTaskKey \<mapsto> JString ''K''] VisibilityTaskKey = Some (JString ''K'')"
    by (simp_all add: ex_index_request_def ex_env_def)
  have 8: "\<forall>req body s. Source ex_index_request = Inr req \<longrightarrow> length req = 2 \<longrightarrow>
          UnmarshalBody ex_env (req ! 1) = Some body \<longrightarrow>
          body VisibilityTaskKey = Some (JString s) \<longrightarrow>
          extractVisibilityTaskKey ex_env ex_started ex_index_request = Ret (s, ex_started)"
    by (rule T [where request = ex_index_request, THEN conjunct2, THEN conjunct2, THEN conjunct2, THEN conjunct2, THEN conjunct2, THEN conjunct2, THEN conjunct2, THEN conjunct1])
  have a: "extractVisibilityTaskKey ex_env ex_started ex_index_request = Ret (''K'', ex_started)"
    by (rule 8 [rule_format, OF src len body field])
  have "well_typed ex_env ex_index_request \<longleftrightarrow>
      (\<exists>k p'. extractVisibilityTaskKey ex_env ex_started ex_index_request = Ret (k, p'))"
    by (rule T [where request = ex_index_request, THEN conjunct1])
  with a have b: "well_typed ex_env ex_index_request" by simp
  have "\<forall>err. Source \<lparr>Source = Inl ''closed''\<rparr> = Inl err \<longrightarrow>
          extractVisibilityTaskKey ex_env ex_started \<lparr>Source = Inl ''closed''\<rparr>
            = Ret ([], countCorrupted ex_started)"
    by (rule T [where request = "\<lparr>Source = Inl ''closed''\<rparr>", THEN conjunct2, THEN conjunct2, THEN conjunct2, THEN conjunct2, THEN conjunct1])
  then have c: "extractVisibilityTaskKey ex_env ex_started \<lparr>Source = Inl ''closed''\<rparr>
       = Ret ([], countCorrupted ex_started)" by simp
  show ?thesis using a b c by simp
qed

text \<open>
  Extraction does fail: on a request whose \<^verbatim>\<open>VisibilityTaskKey\<close> is a number the
  unchecked type assertion panics, and on a request without lines the index expression
  panics.
\<close>

theorem extractVisibilityTaskKey_panics:
  "extractVisibilityTaskKey ex_env ex_started ex_number_request = Panic
   \<and> extractVisibilityTaskKey ex_env ex_started \<lparr>Source = Inr []\<rparr> = Panic"
  by (simp add: extractVisibilityTaskKey_def extractDocID_def ex_env_def ex_number_request_def
      VisibilityTaskKey_def)

section \<open>The after-commit hook\<close>

lemma requestKey_indep: "requestKey e p request = requestKey e p' request"
  by (simp add: requestKey_def extractVisibilityTaskKey_def extractDocID_def
      split: sum.splits list.splits option.splits json.splits)

lemma batchKeys_indep: "batchKeys e p requests = batchKeys e p' requests"
  using requestKey_indep [of e p _ p'] by (simp add: batchKeys_def)

lemma batchKeys_Nil [simp]: "batchKeys e p [] = {}"
  by (simp add: batchKeys_def)

lemma batchKeys_Cons:
  "batchKeys e p (r # rs) = {k. k \<noteq> [] \<and> requestKey e p r = Some k} \<union> batchKeys e p rs"
  by (auto simp: batchKeys_def)

lemma chan_of_metrics [simp]: "chan_of (p\<lparr>metricsClient := x\<rparr>) a = chan_of p a"
  by (simp add: chan_of_def)

lemma acknowledged_metrics_left [simp]:
  "acknowledged (p\<lparr>metricsClient := x\<rparr>) K ack p' = acknowledged p K ack p'"
  by (simp add: acknowledged_def)

lemma acknowledged_metrics_right [simp]:
  "acknowledged p K ack (p'\<lparr>metricsClient := x\<rparr>) = acknowledged p K ack p'"
  by (simp add: acknowledged_def)

lemma acknowledged_countCorrupted [simp]:
  "acknowledged (countCorrupted p) K ack p' = acknowledged p K ack p'"
  "acknowledged p K ack (countCorrupted p') = acknowledged p K ack p'"
  by (simp_all add: countCorrupted_def)

lemma acknowledged_empty: "mapToAckChan p = Some m \<Longrightarrow> acknowledged p {} ack p"
  by (simp add: acknowledged_def)

lemma acknowledged_absent:
  "mapToAckChan p = Some m \<Longrightarrow> m k = None \<Longrightarrow> acknowledged p {k} ack p"
  by (auto simp: acknowledged_def)

lemma acknowledged_send:
  assumes con: "consistent p" and m: "mapToAckChan p = Some m"
  shows "\<exists>p'. sendToAckChan e p now k ack = Ret p' \<and> acknowledged p {k} ack p'"
proof (cases "m k")
  case None
  from sendToAckChan_absent [OF consistent_nonzero [OF con] m None]
    acknowledged_absent [OF m None]
  show ?thesis by simp
next
  case (Some a)
  let ?c = "chan_of p a"
  note pend = consistent_pending [OF con m Some] and va = consistent_valid [OF con m Some]
  from pend have snd: "chan_send (chans p ! ?c) ack = Some ((chans p ! ?c)\<lparr>sent := [ack]\<rparr>)"
    by (simp add: chan_send_empty)
  let ?p' = "p\<lparr>chans := (chans p)[?c := (chans p ! ?c)\<lparr>sent := [ack]\<rparr>],
            mapToAckChan := Some (m(k := None))\<rparr>"
  have ret: "sendToAckChan e p now k ack
      = Ret (?p'\<lparr>metricsClient := recordDone (ackChans p ! a) now (metricsClient p)\<rparr>)"
    using sendToAckChan_present [OF consistent_nonzero [OF con] m Some snd,
        where now = now and e = e] by simp
  have map': "(\<lambda>k'. if k' \<in> {k} then None else m k') = m(k := None)" by auto
  have "acknowledged p {k} ack ?p'"
    unfolding acknowledged_def
  proof (intro exI [of _ m] conjI allI impI)
    show "mapToAckChan ?p' = Some (\<lambda>k'. if k' \<in> {k} then None else m k')"
      unfolding map' by simp
    fix c assume c: "c < length (chans p)"
    have "(\<exists>k'\<in>{k}. \<exists>b. m k' = Some b \<and> chan_of p b = c) \<longleftrightarrow> c = ?c"
      using Some by auto
    then show "chans ?p' ! c =
        (if \<exists>k'\<in>{k}. \<exists>b. m k' = Some b \<and> chan_of p b = c
         then (chans p ! c)\<lparr>sent := [ack]\<rparr> else chans p ! c)"
      using c by (simp add: nth_list_update)
  qed (simp_all add: m)
  then show ?thesis using ret by simp
qed

lemma acknowledged_trans:
  assumes 1: "acknowledged p K1 ack p1" and 2: "acknowledged p1 K2 ack p2"
  shows "acknowledged p (K1 \<union> K2) ack p2"
proof -
  from 1 obtain m where m: "mapToAckChan p = Some m"
    and m1: "mapToAckChan p1 = Some (\<lambda>k. if k \<in> K1 then None else m k)"
    and a1: "ackChans p1 = ackChans p" and s1: "status p1 = status p"
    and b1: "bulkProcessor p1 = bulkProcessor p" and l1: "length (chans p1) = length (chans p)"
    and c1: "\<forall>c<length (chans p). chans p1 ! c =
                (if \<exists>k\<in>K1. \<exists>a. m k = Some a \<and> chan_of p a = c
                 then (chans p ! c)\<lparr>sent := [ack]\<rparr> else chans p ! c)"
    unfolding acknowledged_def by blast
  let ?m1 = "\<lambda>k. if k \<in> K1 then None else m k"
  from 2 m1 have m2: "mapToAckChan p2 = Some (\<lambda>k. if k \<in> K2 then None else ?m1 k)"
    and a2: "ackChans p2 = ackChans p1" and s2: "status p2 = status p1"
    and b2: "bulkProcessor p2 = bulkProcessor p1" and l2: "length (chans p2) = length (chans p1)"
    and c2: "\<forall>c<length (chans p1). chans p2 ! c =
                (if \<exists>k\<in>K2. \<exists>a. ?m1 k = Some a \<and> chan_of p1 a = c
                 then (chans p1 ! c)\<lparr>sent := [ack]\<rparr> else chans p1 ! c)"
    unfolding acknowledged_def by auto
  have co: "\<And>a. chan_of p1 a = chan_of p a" by (simp add: chan_of_def a1)
  have map: "(\<lambda>k. if k \<in> K2 then None else ?m1 k) = (\<lambda>k. if k \<in> K1 \<union> K2 then None else m k)"
    by auto
  show ?thesis
    unfolding acknowledged_def
  proof (intro exI [of _ m] conjI allI impI)
    show "mapToAckChan p2 = Some (\<lambda>k. if k \<in> K1 \<union> K2 then None else m k)"
      using m2 unfolding map .
    fix c assume c: "c < length (chans p)"
    define C1 where "C1 \<longleftrightarrow> (\<exists>k\<in>K1. \<exists>a. m k = Some a \<and> chan_of p a = c)"
    define C2 where "C2 \<longleftrightarrow> (\<exists>k\<in>K2. \<exists>a. ?m1 k = Some a \<and> chan_of p a = c)"
    define C where "C \<longleftrightarrow> (\<exists>k\<in>K1 \<union> K2. \<exists>a. m k = Some a \<and> chan_of p a = c)"
    have eq: "C \<longleftrightarrow> C1 \<or> C2" unfolding C_def C1_def C2_def by (auto split: if_splits)
    have p1c: "chans p1 ! c = (if C1 then (chans p ! c)\<lparr>sent := [ack]\<rparr> else chans p ! c)"
      unfolding C1_def using c1 c by blast
    have p2c: "chans p2 ! c = (if C2 then (chans p1 ! c)\<lparr>sent := [ack]\<rparr> else chans p1 ! c)"
      unfolding C2_def using c2 c l1 unfolding co by simp
    have "chans p2 ! c = (if C then (chans p ! c)\<lparr>sent := [ack]\<rparr> else chans p ! c)"
      unfolding eq p2c p1c by simp
    then show "chans p2 ! c =
        (if \<exists>k\<in>K1 \<union> K2. \<exists>a. m k = Some a \<and> chan_of p a = c
         then (chans p ! c)\<lparr>sent := [ack]\<rparr> else chans p ! c)"
      unfolding C_def .
  qed (simp_all add: m a1 a2 s1 s2 b1 b2 l1 l2)
qed


lemma afterErrorStep_acknowledged:
  assumes con: "consistent p" and m: "mapToAckChan p = Some m" and wt: "well_typed e r"
  shows "\<exists>p'. afterErrorStep e now False p r = Ret p'
     \<and> acknowledged p {k. k \<noteq> [] \<and> requestKey e p r = Some k} False p'"
proof -
  let ?p1 = "p\<lparr>metricsClient := IncCounter ElasticsearchBulkProcessorFailures (metricsClient p)\<rparr>"
  from wt obtain k p2 where x: "extractVisibilityTaskKey e ?p1 r = Ret (k, p2)"
    using extractVisibilityTaskKey_returns by blast
  then have rk: "requestKey e p r = Some k"
    using requestKey_indep [of e p r ?p1] by (simp add: requestKey_def)
  from extractVisibilityTaskKey_cases [OF x]
  have p2: "p2 = ?p1 \<or> p2 = countCorrupted ?p1" by blast
  then have con2: "consistent p2" and m2: "mapToAckChan p2 = Some m"
    and ack2: "\<And>K p'. acknowledged p2 K False p' = acknowledged p K False p'"
    and ack2': "\<And>K. acknowledged p K False p2 = acknowledged p K False p"
    using con m by (auto simp: countCorrupted_def)
  show ?thesis
  proof (cases "k = []")
    case True
    then have K: "{k. k \<noteq> [] \<and> requestKey e p r = Some k} = {}" using rk by auto
    have "afterErrorStep e now False p r = Ret p2"
      using x True by (simp add: afterErrorStep_def)
    moreover have "acknowledged p {} False p2"
      using acknowledged_empty [OF m] ack2' by simp
    ultimately show ?thesis unfolding K by simp
  next
    case False
    then have K: "{k. k \<noteq> [] \<and> requestKey e p r = Some k} = {k}" using rk by auto
    have "afterErrorStep e now False p r = sendToAckChan e p2 now k False"
      using x False by (simp add: afterErrorStep_def)
    then show ?thesis
      using acknowledged_send [OF con2 m2, where e = e and now = now and k = k and ack = False] unfolding K ack2 by simp
  qed
qed

lemma afterError_loop:
  assumes "consistent p" and "mapToAckChan p = Some m" and "\<forall>r\<in>set requests. well_typed e r"
  shows "\<exists>p'. forEach (afterErrorStep e now False) p requests = Ret p'
     \<and> acknowledged p (batchKeys e p requests) False p'"
  using assms
proof (induction requests arbitrary: p m)
  case Nil
  then show ?case using acknowledged_empty by simp
next
  case (Cons r rs)
  from Cons.prems have wt: "well_typed e r" and wts: "\<forall>r\<in>set rs. well_typed e r" by simp_all
  from afterErrorStep_acknowledged [OF Cons.prems(1,2) wt]
  obtain p1 where step: "afterErrorStep e now False p r = Ret p1"
    and ack1: "acknowledged p {k. k \<noteq> [] \<and> requestKey e p r = Some k} False p1" by blast
  have con1: "consistent p1" using consistent_afterErrorStep [OF Cons.prems(1) step] .
  from ack1 obtain m1 where m1: "mapToAckChan p1 = Some m1" unfolding acknowledged_def by blast
  from Cons.IH [OF con1 m1 wts]
  obtain p' where rest: "forEach (afterErrorStep e now False) p1 rs = Ret p'"
    and ack2: "acknowledged p1 (batchKeys e p1 rs) False p'" by blast
  have "acknowledged p (batchKeys e p (r # rs)) False p'"
    using acknowledged_trans [OF ack1 ack2]
    unfolding batchKeys_Cons batchKeys_indep [of e p1 rs p] .
  then show ?case using step rest by simp
qed

lemma AddCounter_AddCounter:
  "AddCounter c n (AddCounter c k mc) = AddCounter c (k + n) mc"
  by (simp add: AddCounter_def add.assoc)

lemma AddCounter_zero: "AddCounter c 0 mc = mc"
  by (simp add: AddCounter_def)

lemma afterError_retryable_loop:
  "forEach (afterErrorStep e now True) p requests =
     Ret (p\<lparr>metricsClient := AddCounter ElasticsearchBulkProcessorFailures
                               (int (length requests)) (metricsClient p)\<rparr>)"
proof (induction requests arbitrary: p)
  case Nil
  show ?case by (simp add: AddCounter_zero)
next
  case (Cons r rs)
  have step: "afterErrorStep e now True p r =
      Ret (p\<lparr>metricsClient := AddCounter ElasticsearchBulkProcessorFailures 1 (metricsClient p)\<rparr>)"
    by (simp add: afterErrorStep_def IncCounter_def)
  show ?case
    by (simp add: step Cons.IH AddCounter_AddCounter)
qed

lemma acknowledged_facts:
  assumes con: "consistent p" and m: "mapToAckChan p = Some m" and ack: "acknowledged p K v p'"
  shows "\<exists>m'. mapToAckChan p' = Some m'
      \<and> (\<forall>k. k \<in> K \<longrightarrow> m' k = None)
      \<and> (\<forall>k. k \<notin> K \<longrightarrow> m' k = m k)
      \<and> (\<forall>k a. k \<in> K \<longrightarrow> m k = Some a \<longrightarrow>
            sent (chans p ! chan_of p a) = [] \<and> sent (chans p' ! chan_of p a) = [v])
      \<and> (\<forall>k a. k \<notin> K \<longrightarrow> m k = Some a \<longrightarrow> chans p' ! chan_of p a = chans p ! chan_of p a)"
proof -
  from ack m have m': "mapToAckChan p' = Some (\<lambda>k. if k \<in> K then None else m k)"
    and ch: "\<forall>c<length (chans p). chans p' ! c =
                (if \<exists>k\<in>K. \<exists>a. m k = Some a \<and> chan_of p a = c
                 then (chans p ! c)\<lparr>sent := [v]\<rparr> else chans p ! c)"
    unfolding acknowledged_def by auto
  have in_K: "sent (chans p ! chan_of p a) = [] \<and> sent (chans p' ! chan_of p a) = [v]"
    if "k \<in> K" "m k = Some a" for k a
  proof -
    have "chan_of p a < length (chans p)" using consistent_valid [OF con m that(2)] by simp
    moreover have "\<exists>k\<in>K. \<exists>b. m k = Some b \<and> chan_of p b = chan_of p a" using that by blast
    ultimately have "chans p' ! chan_of p a = (chans p ! chan_of p a)\<lparr>sent := [v]\<rparr>"
      using ch by simp
    then show ?thesis using consistent_pending [OF con m that(2)] by simp
  qed
  have out_K: "chans p' ! chan_of p a = chans p ! chan_of p a"
    if "k \<notin> K" "m k = Some a" for k a
  proof -
    have lt: "chan_of p a < length (chans p)" using consistent_valid [OF con m that(2)] by simp
    have no: "\<not> (\<exists>k'\<in>K. \<exists>b. m k' = Some b \<and> chan_of p b = chan_of p a)"
    proof
      assume "\<exists>k'\<in>K. \<exists>b. m k' = Some b \<and> chan_of p b = chan_of p a"
      then obtain k' b where "k' \<in> K" "m k' = Some b" "chan_of p b = chan_of p a" by blast
      then have "k' = k" using consistent_inj [OF con m _ that(2)] by blast
      with \<open>k' \<in> K\<close> that(1) show False by simp
    qed
    from ch lt have "chans p' ! chan_of p a =
        (if \<exists>k'\<in>K. \<exists>b. m k' = Some b \<and> chan_of p b = chan_of p a
         then (chans p ! chan_of p a)\<lparr>sent := [v]\<rparr> else chans p ! chan_of p a)"
      by blast
    then show ?thesis using no by (simp only: if_False)
  qed
  show ?thesis using m' in_K out_K by auto
qed

text \<open>
  Claim C4. Let the after-commit hook be called with a top-level error, in a reachable state
  with a map, on a batch of well-typed requests. If the error is retryable, the hook returns
  the state it was given with the failure counter advanced by the size of the batch: no
  channel, ticket or map entry changes. If the error is not retryable, the hook returns;
  afterwards no non-empty key extracted from a request of the batch is in the map, the
  channel of every ticket that was stored under such a key, empty before, holds exactly the
  value \<open>False\<close>, and the entries and channels of all other keys are as before.
\<close>

theorem bulkAfterAction_error:
  assumes "reachable e p" and "mapToAckChan p = Some m" and "\<forall>r\<in>set requests. well_typed e r"
  shows "(IsRetryableError e er \<longrightarrow>
            bulkAfterAction e p now requests response (Some er) =
              Ret (p\<lparr>metricsClient := AddCounter ElasticsearchBulkProcessorFailures
                                        (int (length requests)) (metricsClient p)\<rparr>))
       \<and> (\<not> IsRetryableError e er \<longrightarrow>
            (\<exists>p' m'. bulkAfterAction e p now requests response (Some er) = Ret p'
               \<and> acknowledged p (batchKeys e p requests) False p'
               \<and> mapToAckChan p' = Some m'
               \<and> (\<forall>k. k \<in> batchKeys e p requests \<longrightarrow> m' k = None)
               \<and> (\<forall>k. k \<notin> batchKeys e p requests \<longrightarrow> m' k = m k)
               \<and> (\<forall>k a. k \<in> batchKeys e p requests \<longrightarrow> m k = Some a \<longrightarrow>
                     sent (chans p ! chan_of p a) = [] \<and> sent (chans p' ! chan_of p a) = [False])
               \<and> (\<forall>k a. k \<notin> batchKeys e p requests \<longrightarrow> m k = Some a \<longrightarrow>
                     chans p' ! chan_of p a = chans p ! chan_of p a)))"
proof (intro conjI impI)
  assume "IsRetryableError e er"
  then show "bulkAfterAction e p now requests response (Some er) =
              Ret (p\<lparr>metricsClient := AddCounter ElasticsearchBulkProcessorFailures
                                        (int (length requests)) (metricsClient p)\<rparr>)"
    by (simp add: bulkAfterAction_def afterError_retryable_loop)
next
  assume nr: "\<not> IsRetryableError e er"
  have con: "consistent p" using assms(1) by (rule reachable_consistent)
  from afterError_loop [OF con assms(2,3)]
  obtain p' where loop: "forEach (afterErrorStep e now False) p requests = Ret p'"
    and ack: "acknowledged p (batchKeys e p requests) False p'" by blast
  have ret: "bulkAfterAction e p now requests response (Some er) = Ret p'"
    using nr loop by (simp add: bulkAfterAction_def)
  from acknowledged_facts [OF con assms(2) ack] ret ack
  show "\<exists>p' m'. bulkAfterAction e p now requests response (Some er) = Ret p'
               \<and> acknowledged p (batchKeys e p requests) False p'
               \<and> mapToAckChan p' = Some m'
               \<and> (\<forall>k. k \<in> batchKeys e p requests \<longrightarrow> m' k = None)
               \<and> (\<forall>k. k \<notin> batchKeys e p requests \<longrightarrow> m' k = m k)
               \<and> (\<forall>k a. k \<in> batchKeys e p requests \<longrightarrow> m k = Some a \<longrightarrow>
                     sent (chans p ! chan_of p a) = [] \<and> sent (chans p' ! chan_of p a) = [False])
               \<and> (\<forall>k a. k \<notin> batchKeys e p requests \<longrightarrow> m k = Some a \<longrightarrow>
                     chans p' ! chan_of p a = chans p ! chan_of p a)"
    by blast
qed


lemma ex_index_request_key:
  "extractVisibilityTaskKey ex_env p ex_index_request = Ret (''K'', p)"
  by (simp add: extractVisibilityTaskKey_def ex_env_def ex_index_request_def)

lemma ex_index_request_docID:
  "extractDocID ex_env p ex_index_request = Ret (''A'', p)"
  by (simp add: extractDocID_def ex_env_def ex_index_request_def)

lemma ex_pending_facts:
  "mapToAckChan ex_pending = Some [''K'' \<mapsto> 0]" "[''K'' \<mapsto> (0::nat)] ''K'' = Some 0"
  "chan_of ex_pending 0 = 0"
  by (simp_all add: ex_pending_def chan_of_def)

theorem bulkAfterAction_error_witness:
  "(\<exists>p' m'. bulkAfterAction ex_env ex_pending 9 [ex_index_request] None (Some ''rejected'') = Ret p'
       \<and> mapToAckChan p' = Some m' \<and> m' ''K'' = None \<and> sent (chans p' ! 0) = [False])
   \<and> bulkAfterAction ex_env ex_pending 9 [ex_index_request] None (Some ''timeout'') =
        Ret (ex_pending\<lparr>metricsClient := AddCounter ElasticsearchBulkProcessorFailures 1
                                            (metricsClient ex_pending)\<rparr>)"
proof -
  have wt: "\<forall>r\<in>set [ex_index_request]. well_typed ex_env r"
    using extractVisibilityTaskKey_returns [of ex_env ex_index_request ex_pending]
      ex_index_request_key [of ex_pending] by simp
  have key: "''K'' \<in> batchKeys ex_env ex_pending [ex_index_request]"
    by (simp add: batchKeys_def requestKey_def ex_index_request_key)
  have r: "\<not> IsRetryableError ex_env ''rejected''" "IsRetryableError ex_env ''timeout''"
    by (simp_all add: ex_env_def)
  note T = bulkAfterAction_error [OF reachable_ex_pending ex_pending_facts(1) wt,
      where now = 9 and response = None]
  from T [where er = "''rejected''", THEN conjunct2, rule_format, OF r(1)]
  obtain p' m' where 1: "bulkAfterAction ex_env ex_pending 9 [ex_index_request] None
        (Some ''rejected'') = Ret p'"
    and 2: "mapToAckChan p' = Some m'"
    and 3: "\<forall>k. k \<in> batchKeys ex_env ex_pending [ex_index_request] \<longrightarrow> m' k = None"
    and 4: "\<forall>k a. k \<in> batchKeys ex_env ex_pending [ex_index_request] \<longrightarrow>
              [''K'' \<mapsto> 0] k = Some a \<longrightarrow>
              sent (chans ex_pending ! chan_of ex_pending a) = []
              \<and> sent (chans p' ! chan_of ex_pending a) = [False]"
    by blast
  from 3 key have 5: "m' ''K'' = None" by blast
  from 4 [rule_format, OF key ex_pending_facts(2)] have 6: "sent (chans p' ! 0) = [False]"
    by (simp add: ex_pending_facts(3))
  from T [where er = "''timeout''", THEN conjunct1, rule_format, OF r(2)]
  have 7: "bulkAfterAction ex_env ex_pending 9 [ex_index_request] None (Some ''timeout'') =
        Ret (ex_pending\<lparr>metricsClient := AddCounter ElasticsearchBulkProcessorFailures 1
                                            (metricsClient ex_pending)\<rparr>)"
    by simp
  show ?thesis using 1 2 5 6 7 by blast
qed

lemma counters_recordDone [simp]: "counters (recordDone t now mc) = counters mc"
  by (simp add: recordDone_def RecordTimer_def Let_def)

lemma forEach_append:
  "forEach body s (xs @ ys) = obind (forEach body s xs) (\<lambda>s'. forEach body s' ys)"
proof (induction xs arbitrary: s)
  case Nil
  show ?case by simp
next
  case (Cons x xs)
  show ?case by (cases "body s x") (simp_all add: Cons.IH)
qed

lemma countCorrupted_neq: "countCorrupted p \<noteq> p"
proof
  assume "countCorrupted p = p"
  then have "counters (metricsClient (countCorrupted p)) ElasticsearchBulkProcessorCorruptedData
      = counters (metricsClient p) ElasticsearchBulkProcessorCorruptedData" by simp
  then show False by (simp add: countCorrupted_def IncCounter_def AddCounter_def)
qed

lemma extractVisibilityTaskKey_indep:
  assumes "extractVisibilityTaskKey e p request = Ret (k, p1)" and "k \<noteq> []"
  shows "extractVisibilityTaskKey e q request = Ret (k, q)"
proof -
  have "requestKey e p request = Some k" using assms(1) by (simp add: requestKey_def)
  then have "requestKey e q request = Some k" using requestKey_indep [of e p request q] by simp
  then obtain q1 where q1: "extractVisibilityTaskKey e q request = Ret (k, q1)"
    by (cases "extractVisibilityTaskKey e q request") (auto simp: requestKey_def)
  from extractVisibilityTaskKey_cases [OF q1] assms(2) have "q1 = q" by simp
  with q1 show ?thesis by simp
qed

lemma extractDocID_indep:
  assumes "extractDocID e p request = Ret (d, p2)"
  shows "extractDocID e q request = Ret (d, if p2 = p then q else countCorrupted q)"
proof (cases "Source request")
  case (Inl err)
  then show ?thesis using assms countCorrupted_neq [of p] by (auto simp: extractDocID_def)
next
  case (Inr req)
  show ?thesis
  proof (cases req)
    case Nil
    with Inr assms show ?thesis by (simp add: extractDocID_def)
  next
    case (Cons line0 lines)
    show ?thesis
    proof (cases "UnmarshalAction e line0")
      case None
      with Inr Cons show ?thesis using assms countCorrupted_neq [of p]
        by (auto simp: extractDocID_def)
    next
      case (Some body)
      show ?thesis
      proof (cases "first_id body")
        case None
        with Inr Cons Some show ?thesis using assms countCorrupted_neq [of p]
          by (auto simp: extractDocID_def)
      next
        case v: (Some v)
        with Inr Cons Some show ?thesis using assms
          by (cases v) (simp_all add: extractDocID_def)
      qed
    qed
  qed
qed

lemma id_typed_returns:
  "id_typed e request \<longleftrightarrow> (\<exists>d p'. extractDocID e p request = Ret (d, p'))"
  by (auto simp: id_typed_def extractDocID_def
      split: sum.splits list.splits option.splits json.splits)

lemma referenced_metrics [simp]: "referenced (p\<lparr>metricsClient := x\<rparr>) c = referenced p c"
  by (simp add: referenced_def chan_of_def)

lemma undisturbed_metrics_left [simp]:
  "undisturbed (p\<lparr>metricsClient := x\<rparr>) p' = undisturbed p p'"
  by (simp add: undisturbed_def)

lemma undisturbed_metrics_right [simp]:
  "undisturbed p (p'\<lparr>metricsClient := x\<rparr>) = undisturbed p p'"
  by (simp add: undisturbed_def)

lemma undisturbed_countCorrupted [simp]:
  "undisturbed (countCorrupted p) p' = undisturbed p p'"
  "undisturbed p (countCorrupted p') = undisturbed p p'"
  by (simp_all add: countCorrupted_def)

lemma undisturbed_refl: "mapToAckChan p = Some m \<Longrightarrow> undisturbed p p"
  by (simp add: undisturbed_def)

lemma undisturbed_trans:
  assumes 1: "undisturbed p p1" and 2: "undisturbed p1 p2"
  shows "undisturbed p p2"
proof -
  from 1 obtain m m1 where m: "mapToAckChan p = Some m" and m1: "mapToAckChan p1 = Some m1"
    and s1: "\<forall>k. m k = None \<longrightarrow> m1 k = None"
    and a1: "ackChans p1 = ackChans p" and l1: "length (chans p1) = length (chans p)"
    and c1: "\<forall>c<length (chans p).
           \<not> referenced p c \<longrightarrow> chans p1 ! c = chans p ! c \<and> \<not> referenced p1 c"
    unfolding undisturbed_def by blast
  from 2 m1 obtain m2 where m2: "mapToAckChan p2 = Some m2"
    and s2: "\<forall>k. m1 k = None \<longrightarrow> m2 k = None"
    and a2: "ackChans p2 = ackChans p1" and l2: "length (chans p2) = length (chans p1)"
    and c2: "\<forall>c<length (chans p1).
           \<not> referenced p1 c \<longrightarrow> chans p2 ! c = chans p1 ! c \<and> \<not> referenced p2 c"
    unfolding undisturbed_def by auto
  have map: "\<exists>m m'. mapToAckChan p = Some m \<and> mapToAckChan p2 = Some m'
        \<and> (\<forall>k. m k = None \<longrightarrow> m' k = None)"
    using m m2 s1 s2 by blast
  have ch: "\<forall>c<length (chans p).
           \<not> referenced p c \<longrightarrow> chans p2 ! c = chans p ! c \<and> \<not> referenced p2 c"
  proof (intro allI impI)
    fix c assume c: "c < length (chans p)" and n: "\<not> referenced p c"
    from c1 c n have x: "chans p1 ! c = chans p ! c" "\<not> referenced p1 c" by blast+
    from c2 c l1 x(2) have "chans p2 ! c = chans p1 ! c" "\<not> referenced p2 c" by simp_all
    with x(1) show "chans p2 ! c = chans p ! c \<and> \<not> referenced p2 c" by simp
  qed
  show ?thesis unfolding undisturbed_def using map a1 a2 l1 l2 ch by simp
qed

lemma acknowledged_undisturbed:
  assumes "acknowledged p K ack p'"
  shows "undisturbed p p'"
proof -
  from assms obtain m where m: "mapToAckChan p = Some m"
    and m': "mapToAckChan p' = Some (\<lambda>k. if k \<in> K then None else m k)"
    and a: "ackChans p' = ackChans p"
    and l: "length (chans p') = length (chans p)"
    and c: "\<forall>c<length (chans p).
              chans p' ! c =
                (if \<exists>k\<in>K. \<exists>a. m k = Some a \<and> chan_of p a = c
                 then (chans p ! c)\<lparr>sent := [ack]\<rparr> else chans p ! c)"
    unfolding acknowledged_def by blast
  have co: "\<And>a. chan_of p' a = chan_of p a" using a by (simp add: chan_of_def)
  have map: "\<exists>m m'. mapToAckChan p = Some m \<and> mapToAckChan p' = Some m'
        \<and> (\<forall>k. m k = None \<longrightarrow> m' k = None)"
    using m m' by simp
  have ch: "\<forall>c<length (chans p).
           \<not> referenced p c \<longrightarrow> chans p' ! c = chans p ! c \<and> \<not> referenced p' c"
  proof (intro allI impI)
    fix x assume x: "x < length (chans p)" and n: "\<not> referenced p x"
    have no: "\<not> (\<exists>k\<in>K. \<exists>a. m k = Some a \<and> chan_of p a = x)"
      using n m unfolding referenced_def by blast
    from c x have "chans p' ! x =
                (if \<exists>k\<in>K. \<exists>a. m k = Some a \<and> chan_of p a = x
                 then (chans p ! x)\<lparr>sent := [ack]\<rparr> else chans p ! x)" by blast
    then have 1: "chans p' ! x = chans p ! x" by (simp only: no if_False)
    have 2: "\<not> referenced p' x"
    proof
      assume "referenced p' x"
      then obtain key b where "(\<lambda>k. if k \<in> K then None else m k) key = Some b"
        and "chan_of p' b = x"
        using m' unfolding referenced_def by auto
      then have "m key = Some b" "chan_of p b = x" using co by (simp_all split: if_splits)
      with m n show False unfolding referenced_def by blast
    qed
    from 1 2 show "chans p' ! x = chans p ! x \<and> \<not> referenced p' x" by simp
  qed
  show ?thesis unfolding undisturbed_def using map a l ch by simp
qed

lemma sendToAckChan_undisturbed:
  assumes con: "consistent p" and m: "mapToAckChan p = Some m"
  shows "\<exists>p'. sendToAckChan e (p\<lparr>metricsClient := mc\<rparr>) now k ack = Ret p' \<and> undisturbed p p'"
proof -
  have c: "consistent (p\<lparr>metricsClient := mc\<rparr>)" using con by simp
  have mm: "mapToAckChan (p\<lparr>metricsClient := mc\<rparr>) = Some m" using m by simp
  from acknowledged_send [OF c mm, where e = e and now = now and k = k and ack = ack]
  obtain p' where r: "sendToAckChan e (p\<lparr>metricsClient := mc\<rparr>) now k ack = Ret p'"
    and a: "acknowledged (p\<lparr>metricsClient := mc\<rparr>) {k} ack p'" by blast
  from acknowledged_undisturbed [OF a] have "undisturbed p p'" by simp
  with r show ?thesis by blast
qed

lemma afterStep_undisturbed:
  assumes con: "consistent p" and m: "mapToAckChan p = Some m"
    and wt: "well_typed e request" and it: "id_typed e request"
  shows "\<exists>p'. afterStep e now idx p request = Ret p' \<and> undisturbed p p'"
proof -
  from wt obtain k p1 where key: "extractVisibilityTaskKey e p request = Ret (k, p1)"
    using extractVisibilityTaskKey_returns [of e request p] by blast
  note kc = extractVisibilityTaskKey_cases [OF key]
  show ?thesis
  proof (cases "k = []")
    case True
    then have "afterStep e now idx p request = Ret p1" using key by (simp add: afterStep_def)
    moreover have "undisturbed p p1" using kc undisturbed_refl [OF m] by auto
    ultimately show ?thesis by blast
  next
    case ne: False
    with kc have p1: "p1 = p" by simp
    from it obtain d p2 where doc: "extractDocID e p request = Ret (d, p2)"
      using id_typed_returns [of e request p] by blast
    from extractDocID_cases [OF doc] obtain mc2 where p2: "p2 = p\<lparr>metricsClient := mc2\<rparr>"
      by (auto simp: countCorrupted_def intro: that [of "metricsClient p"])
    note send = sendToAckChan_undisturbed [OF con m, where e = e and now = now and k = k]
    show ?thesis
    proof (cases "idx d")
      case None
      then have "afterStep e now idx p request = sendToAckChan e (countCorrupted p2) now k False"
        using key p1 ne doc by (simp add: afterStep_def)
      then show ?thesis using send [where ack = False] p2 by (simp add: countCorrupted_def)
    next
      case (Some item)
      show ?thesis
      proof (cases "isSuccess item")
        case True
        then have "afterStep e now idx p request = sendToAckChan e p2 now k True"
          using key p1 ne doc Some by (simp add: afterStep_def)
        then show ?thesis using send [where ack = True] p2 by simp
      next
        case ns: False
        show ?thesis
        proof (cases "IsRetryableStatus e (Status item)")
          case True
          then have "afterStep e now idx p request
              = Ret (p2\<lparr>metricsClient :=
                       IncCounter ElasticsearchBulkProcessorRetries (metricsClient p2)\<rparr>)"
            using key p1 ne doc Some ns by (simp add: afterStep_def)
          then show ?thesis using p2 undisturbed_refl [OF m] by simp
        next
          case False
          then have "afterStep e now idx p request
              = sendToAckChan e
                  (p2\<lparr>metricsClient :=
                        IncCounter ElasticsearchBulkProcessorFailures (metricsClient p2)\<rparr>)
                  now k False"
            using key p1 ne doc Some ns by (simp add: afterStep_def)
          then show ?thesis using send [where ack = False] p2 by simp
        qed
      qed
    qed
  qed
qed

lemma afterStep_loop:
  assumes typed: "\<forall>r\<in>set requests. well_typed e r \<and> id_typed e r"
  shows "consistent p \<Longrightarrow> mapToAckChan p = Some m \<Longrightarrow>
     \<exists>p'. forEach (afterStep e now idx) p requests = Ret p' \<and> consistent p' \<and> undisturbed p p'"
  using typed
proof (induction requests arbitrary: p m)
  case Nil
  then show ?case by (simp add: undisturbed_refl)
next
  case (Cons r rs)
  from Cons.prems have wt: "well_typed e r" and it: "id_typed e r" by simp_all
  from afterStep_undisturbed [OF Cons.prems(1,2) wt it, where now = now and idx = idx]
  obtain p1 where s: "afterStep e now idx p r = Ret p1" and u: "undisturbed p p1" by blast
  have c1: "consistent p1" using Cons.prems(1) s by (rule consistent_afterStep)
  from u obtain m1 where m1: "mapToAckChan p1 = Some m1" unfolding undisturbed_def by blast
  from Cons.prems(3) have "\<forall>r\<in>set rs. well_typed e r \<and> id_typed e r" by simp
  from Cons.IH [OF c1 m1 this]
  obtain p' where l: "forEach (afterStep e now idx) p1 rs = Ret p'" and c': "consistent p'"
    and u': "undisturbed p1 p'" by blast
  have "forEach (afterStep e now idx) p (r # rs) = Ret p'" using s l by simp
  with c' undisturbed_trans [OF u u'] show ?case by blast
qed

lemma afterStep_no_item:
  assumes con: "consistent p" and m: "mapToAckChan p = Some m"
    and key: "extractVisibilityTaskKey e p request = Ret (k, p1)" and ne: "k \<noteq> []"
    and doc: "extractDocID e p request = Ret (d, p2)"
    and missing: "idx d = None"
  shows "\<exists>p'. afterStep e now idx p request = Ret p'
      \<and> counters (metricsClient p') ElasticsearchBulkProcessorCorruptedData
          = counters (metricsClient p) ElasticsearchBulkProcessorCorruptedData
              + (if p2 = p then 1 else 2)
      \<and> (\<forall>c. c \<noteq> ElasticsearchBulkProcessorCorruptedData \<longrightarrow>
            counters (metricsClient p') c = counters (metricsClient p) c)
      \<and> acknowledged p {k} False p'
      \<and> mapToAckChan p' = Some (m(k := None))
      \<and> (\<forall>a. m k = Some a \<longrightarrow>
            sent (chans p ! chan_of p a) = []
          \<and> sent (chans p' ! chan_of p a) = [False])"
proof -
  from extractVisibilityTaskKey_cases [OF key] ne have p1: "p1 = p" by simp
  define q where "q = countCorrupted p2"
  have step: "afterStep e now idx p request = sendToAckChan e q now k False"
    using key p1 ne doc missing by (simp add: afterStep_def q_def)
  from extractDocID_cases [OF doc] have p2: "p2 = p \<or> p2 = countCorrupted p" by blast
  have conq: "consistent q" and mq: "mapToAckChan q = Some m"
    using con m p2 by (auto simp: q_def countCorrupted_def)
  have ackq: "\<And>p'. acknowledged q {k} False p' = acknowledged p {k} False p'"
    using p2 by (auto simp: q_def)
  have cq: "counters (metricsClient q) ElasticsearchBulkProcessorCorruptedData
          = counters (metricsClient p) ElasticsearchBulkProcessorCorruptedData
              + (if p2 = p then 1 else 2)"
    "\<And>c. c \<noteq> ElasticsearchBulkProcessorCorruptedData \<Longrightarrow>
        counters (metricsClient q) c = counters (metricsClient p) c"
    using p2 countCorrupted_neq [of p]
    by (auto simp: q_def countCorrupted_def IncCounter_def AddCounter_def)
  from acknowledged_send [OF conq mq, where e = e and now = now and k = k and ack = False]
  obtain p' where ret: "sendToAckChan e q now k False = Ret p'"
    and ack: "acknowledged p {k} False p'" using ackq by auto
  have cnt: "counters (metricsClient p') = counters (metricsClient q)"
  proof (cases "m k")
    case None
    from sendToAckChan_absent [OF consistent_nonzero [OF conq] mq None,
        where e = e and now = now and ack = False] ret
    show ?thesis by simp
  next
    case (Some a)
    from consistent_pending [OF conq mq Some]
    have "chan_send (chans q ! chan_of q a) False
        = Some ((chans q ! chan_of q a)\<lparr>sent := [False]\<rparr>)"
      by (simp add: chan_send_empty)
    from sendToAckChan_present [OF consistent_nonzero [OF conq] mq Some this,
        where e = e and now = now] ret
    show ?thesis by auto
  qed
  from acknowledged_facts [OF con m ack]
  obtain m' where m': "mapToAckChan p' = Some m'" and k': "\<forall>x. x \<in> {k} \<longrightarrow> m' x = None"
    and o': "\<forall>x. x \<notin> {k} \<longrightarrow> m' x = m x"
    and s': "\<forall>x a. x \<in> {k} \<longrightarrow> m x = Some a \<longrightarrow>
            sent (chans p ! chan_of p a) = [] \<and> sent (chans p' ! chan_of p a) = [False]"
    by blast
  have "m' = m(k := None)" using k' o' by (auto simp: fun_eq_iff)
  with m' have map': "mapToAckChan p' = Some (m(k := None))" by simp
  have 1: "afterStep e now idx p request = Ret p'" using step ret by simp
  have 2: "counters (metricsClient p') ElasticsearchBulkProcessorCorruptedData
          = counters (metricsClient p) ElasticsearchBulkProcessorCorruptedData
              + (if p2 = p then 1 else 2)"
    unfolding cnt by (rule cq(1))
  have 3: "\<forall>c. c \<noteq> ElasticsearchBulkProcessorCorruptedData \<longrightarrow>
            counters (metricsClient p') c = counters (metricsClient p) c"
    unfolding cnt using cq(2) by blast
  have 4: "\<forall>a. m k = Some a \<longrightarrow>
            sent (chans p ! chan_of p a) = []
          \<and> sent (chans p' ! chan_of p a) = [False]"
    using s' by blast
  show ?thesis using 1 2 3 ack map' 4 by blast
qed


lemma bulkAfterAction_response:
  "bulkAfterAction e p now requests (Some response) None
     = forEach (afterStep e now (buildResponseIndex response)) p requests"
  by (simp add: bulkAfterAction_def)

text \<open>
  Claim C7. Take the after-commit hook with a response, called in a reachable state with a
  map on a batch of requests on which both extraction functions return, and a request of
  the batch, at position \<open>i\<close>, whose extracted key \<open>k\<close> is not empty and whose document
  id, as \<^verbatim>\<open>extractDocID\<close> returns it, has no item in the response index. The hook
  returns, and its run is the hook on the requests before position \<open>i\<close>, then on the
  request, then on the requests after it. Over the iteration of the request the
  corrupted-data counter rises by one when \<^verbatim>\<open>extractDocID\<close> returned the id without
  counting, and by two when \<^verbatim>\<open>extractDocID\<close> itself counted (it found no id and
  returned the empty one); every other counter is as before the iteration. The key is
  removed from the map in that iteration and is absent when the hook returns. The ticket
  stored under the key, if there is one, has an empty channel before the iteration and a
  channel that was sent exactly \<open>False\<close> after it and when the hook returns.
\<close>

theorem bulkAfterAction_missing_item:
  assumes reach: "reachable e p" and m: "mapToAckChan p = Some m"
    and typed: "\<forall>r\<in>set requests. well_typed e r \<and> id_typed e r"
    and i: "i < length requests"
    and key: "extractVisibilityTaskKey e p (requests ! i) = Ret (k, p1)" and ne: "k \<noteq> []"
    and doc: "extractDocID e p (requests ! i) = Ret (d, p2)"
    and missing: "buildResponseIndex response d = None"
  shows "\<exists>p_i p_j p' m_i m'.
        bulkAfterAction e p now (take i requests) (Some response) None = Ret p_i
      \<and> bulkAfterAction e p_i now [requests ! i] (Some response) None = Ret p_j
      \<and> bulkAfterAction e p_j now (drop (Suc i) requests) (Some response) None = Ret p'
      \<and> bulkAfterAction e p now requests (Some response) None = Ret p'
      \<and> counters (metricsClient p_j) ElasticsearchBulkProcessorCorruptedData
          = counters (metricsClient p_i) ElasticsearchBulkProcessorCorruptedData
              + (if p2 = p then 1 else 2)
      \<and> (\<forall>c. c \<noteq> ElasticsearchBulkProcessorCorruptedData \<longrightarrow>
            counters (metricsClient p_j) c = counters (metricsClient p_i) c)
      \<and> mapToAckChan p_i = Some m_i
      \<and> mapToAckChan p_j = Some (m_i(k := None))
      \<and> mapToAckChan p' = Some m' \<and> m' k = None
      \<and> (\<forall>a. m_i k = Some a \<longrightarrow>
            sent (chans p_i ! chan_of p_i a) = []
          \<and> sent (chans p_j ! chan_of p_i a) = [False]
          \<and> sent (chans p' ! chan_of p_i a) = [False])"
proof -
  let ?idx = "buildResponseIndex response"
  let ?r = "requests ! i"
  have con: "consistent p" using reach by (rule reachable_consistent)
  have split: "requests = take i requests @ ?r # drop (Suc i) requests"
    using i by (simp add: id_take_nth_drop)
  have t1: "\<forall>r\<in>set (take i requests). well_typed e r \<and> id_typed e r"
    using typed by (auto dest: in_set_takeD)
  have t2: "\<forall>r\<in>set (drop (Suc i) requests). well_typed e r \<and> id_typed e r"
    using typed by (auto dest: in_set_dropD)
  from afterStep_loop [OF t1 con m, where now = now and idx = ?idx]
  obtain p_i where l1: "forEach (afterStep e now ?idx) p (take i requests) = Ret p_i"
    and ci: "consistent p_i" and ui: "undisturbed p p_i" by blast
  from ui obtain m_i where mi: "mapToAckChan p_i = Some m_i" unfolding undisturbed_def by blast
  have keyi: "extractVisibilityTaskKey e p_i ?r = Ret (k, p_i)"
    using key ne by (rule extractVisibilityTaskKey_indep)
  have doci: "extractDocID e p_i ?r = Ret (d, if p2 = p then p_i else countCorrupted p_i)"
    using doc by (rule extractDocID_indep)
  have same: "((if p2 = p then p_i else countCorrupted p_i) = p_i) = (p2 = p)"
    using countCorrupted_neq [of p_i] by simp
  from afterStep_no_item [where idx = "?idx" and now = now, OF ci mi keyi ne doci missing] same
  obtain p_j where sj: "afterStep e now ?idx p_i ?r = Ret p_j"
    and cnt: "counters (metricsClient p_j) ElasticsearchBulkProcessorCorruptedData
          = counters (metricsClient p_i) ElasticsearchBulkProcessorCorruptedData
              + (if p2 = p then 1 else 2)"
    and oth: "\<forall>c. c \<noteq> ElasticsearchBulkProcessorCorruptedData \<longrightarrow>
            counters (metricsClient p_j) c = counters (metricsClient p_i) c"
    and ack: "acknowledged p_i {k} False p_j"
    and mj: "mapToAckChan p_j = Some (m_i(k := None))"
    and sent: "\<forall>a. m_i k = Some a \<longrightarrow>
            sent (chans p_i ! chan_of p_i a) = []
          \<and> sent (chans p_j ! chan_of p_i a) = [False]"
    by auto
  have cj: "consistent p_j" using ci sj by (rule consistent_afterStep)
  from afterStep_loop [OF t2 cj mj, where now = now and idx = ?idx]
  obtain p' where l3: "forEach (afterStep e now ?idx) p_j (drop (Suc i) requests) = Ret p'"
    and c': "consistent p'" and u': "undisturbed p_j p'" by blast
  from u' mj obtain m' where m': "mapToAckChan p' = Some m'"
    and sub: "\<forall>x. (m_i(k := None)) x = None \<longrightarrow> m' x = None"
    unfolding undisturbed_def by auto
  have gone: "m' k = None" using sub by simp
  have lenj: "length (chans p_j) = length (chans p_i)" using ack unfolding acknowledged_def by blast
  have keep: "\<forall>c<length (chans p_j).
           \<not> referenced p_j c \<longrightarrow> chans p' ! c = chans p_j ! c"
    using u' unfolding undisturbed_def by blast
  have final: "sent (chans p' ! chan_of p_i a) = [False]" if a: "m_i k = Some a" for a
  proof -
    let ?c = "chan_of p_i a"
    have lt: "?c < length (chans p_j)" using consistent_valid [OF ci mi a] lenj by simp
    have sj': "sent (chans p_j ! ?c) = [False]" using sent a by blast
    have "\<not> referenced p_j ?c"
    proof
      assume "referenced p_j ?c"
      with cj lt have "sent (chans p_j ! ?c) = []"
        unfolding consistent_def chans_ok_def by blast
      with sj' show False by simp
    qed
    with keep lt have "chans p' ! ?c = chans p_j ! ?c" by blast
    with sj' show ?thesis by simp
  qed
  have h1: "bulkAfterAction e p now (take i requests) (Some response) None = Ret p_i"
    using l1 by (simp add: bulkAfterAction_response)
  have h2: "bulkAfterAction e p_i now [?r] (Some response) None = Ret p_j"
    using sj by (simp add: bulkAfterAction_response)
  have h3: "bulkAfterAction e p_j now (drop (Suc i) requests) (Some response) None = Ret p'"
    using l3 by (simp add: bulkAfterAction_response)
  have "forEach (afterStep e now ?idx) p (take i requests @ ?r # drop (Suc i) requests) = Ret p'"
    using l1 sj l3 by (simp add: forEach_append)
  then have h4: "bulkAfterAction e p now requests (Some response) None = Ret p'"
    using split by (simp add: bulkAfterAction_response)
  have s3: "\<forall>a. m_i k = Some a \<longrightarrow>
            sent (chans p_i ! chan_of p_i a) = []
          \<and> sent (chans p_j ! chan_of p_i a) = [False]
          \<and> sent (chans p' ! chan_of p_i a) = [False]"
    using sent final by blast
  show ?thesis
    using h1 h2 h3 h4 cnt oth mi mj m' gone s3 by blast
qed

lemma ex_noid_request_key:
  "extractVisibilityTaskKey ex_env p ex_noid_request = Ret (''K'', p)"
  by (simp add: extractVisibilityTaskKey_def ex_env_def ex_noid_request_def)

lemma ex_noid_request_docID:
  "extractDocID ex_env p ex_noid_request = Ret ([], countCorrupted p)"
  by (simp add: extractDocID_def ex_env_def ex_noid_request_def)

lemma ex_partial_response_index:
  "buildResponseIndex ex_partial_response ''A'' = None"
  "buildResponseIndex ex_partial_response [] = None"
  by (simp_all add: buildResponseIndex_def ex_partial_response_def put_item_def)

lemma ex_requests_typed:
  "well_typed ex_env ex_index_request" "id_typed ex_env ex_index_request"
  "well_typed ex_env ex_noid_request" "id_typed ex_env ex_noid_request"
  by (simp_all add: well_typed_def id_typed_def ex_env_def ex_index_request_def
      ex_noid_request_def)

theorem bulkAfterAction_missing_item_witness:
  "\<exists>p'. bulkAfterAction ex_env ex_pending 9 [ex_index_request] (Some ex_partial_response) None
            = Ret p'
      \<and> corruptedCount p' = corruptedCount ex_pending + 1
      \<and> sent (chans p' ! 0) = [False]
      \<and> mapToAckChan p' = Some ([''K'' \<mapsto> 0](''K'' := None))"
proof -
  have typed: "\<forall>r\<in>set [ex_index_request]. well_typed ex_env r \<and> id_typed ex_env r"
    by (simp add: ex_requests_typed)
  have i: "0 < length [ex_index_request]" by simp
  have key: "extractVisibilityTaskKey ex_env ex_pending ([ex_index_request] ! 0)
      = Ret (''K'', ex_pending)" by (simp add: ex_index_request_key)
  have doc: "extractDocID ex_env ex_pending ([ex_index_request] ! 0) = Ret (''A'', ex_pending)"
    by (simp add: ex_index_request_docID)
  have ne: "''K'' \<noteq> []" by simp
  from bulkAfterAction_missing_item [OF reachable_ex_pending ex_pending_facts(1) typed i key ne doc
      ex_partial_response_index(1), where now = 9]
  obtain p_i p_j p' m_i m' where
    h1: "bulkAfterAction ex_env ex_pending 9 (take 0 [ex_index_request])
           (Some ex_partial_response) None = Ret p_i"
    and h2: "bulkAfterAction ex_env p_i 9 [[ex_index_request] ! 0]
           (Some ex_partial_response) None = Ret p_j"
    and h3: "bulkAfterAction ex_env p_j 9 (drop (Suc 0) [ex_index_request])
           (Some ex_partial_response) None = Ret p'"
    and h4: "bulkAfterAction ex_env ex_pending 9 [ex_index_request]
           (Some ex_partial_response) None = Ret p'"
    and cnt: "counters (metricsClient p_j) ElasticsearchBulkProcessorCorruptedData
          = counters (metricsClient p_i) ElasticsearchBulkProcessorCorruptedData
              + (if ex_pending = ex_pending then 1 else 2)"
    and mi: "mapToAckChan p_i = Some m_i"
    and mj: "mapToAckChan p_j = Some (m_i(''K'' := None))"
    and s: "\<forall>a. m_i ''K'' = Some a \<longrightarrow>
            sent (chans p_i ! chan_of p_i a) = []
          \<and> sent (chans p_j ! chan_of p_i a) = [False]
          \<and> sent (chans p' ! chan_of p_i a) = [False]"
    by blast
  from h1 have pi: "p_i = ex_pending" by (simp add: bulkAfterAction_response)
  from h3 have pj: "p_j = p'" by (simp add: bulkAfterAction_response)
  from mi pi have m_i: "m_i = [''K'' \<mapsto> 0]" by (simp add: ex_pending_facts(1))
  from cnt pi pj have 2: "corruptedCount p' = corruptedCount ex_pending + 1"
    by (simp add: corruptedCount_def)
  from mj pj m_i have 3: "mapToAckChan p' = Some ([''K'' \<mapsto> 0](''K'' := None))" by simp
  from s [rule_format, of 0] m_i pi have 4: "sent (chans p' ! 0) = [False]"
    by (simp add: ex_pending_facts(3))
  from h4 2 3 4 show ?thesis by blast
qed

lemma corruptedCount_ex_pending: "corruptedCount ex_pending = 0"
  by (simp add: corruptedCount_def ex_pending_def ex_metrics_def)

text \<open>
  The counter does not always rise by one: for a request with the key \<open>K\<close> whose action
  line has no \<^verbatim>\<open>_id\<close>, \<^verbatim>\<open>extractDocID\<close> counts and returns the empty id, the response
  index has no item for it, and the hook counts again, so that the counter goes from 0 to 2.
\<close>

theorem bulkAfterAction_counts_twice:
  "extractVisibilityTaskKey ex_env ex_pending ex_noid_request = Ret (''K'', ex_pending)
   \<and> extractDocID ex_env ex_pending ex_noid_request = Ret ([], countCorrupted ex_pending)
   \<and> buildResponseIndex ex_partial_response [] = None
   \<and> bulkAfterAction ex_env ex_pending 9 [ex_noid_request] (Some ex_partial_response) None
        = Ret ex_nacked_twice
   \<and> corruptedCount ex_pending = 0
   \<and> corruptedCount ex_nacked_twice = 2"
proof -
  have 2: "sendToAckChan ex_env (countCorrupted (countCorrupted ex_pending)) 9 ''K'' False
        = Ret ex_nacked_twice"
    by (simp add: sendToAckChan_def RemoveIf_def hashFn_def ackChan_done_def chan_send_def
        make_chan_def recordDone_def RecordTimer_def countCorrupted_def ex_pending_def
        ex_nacked_twice_def ex_env_def)
  have 1: "bulkAfterAction ex_env ex_pending 9 [ex_noid_request] (Some ex_partial_response) None
        = Ret ex_nacked_twice"
    by (simp add: bulkAfterAction_response afterStep_def ex_noid_request_key
        ex_noid_request_docID ex_partial_response_index 2)
  have 3: "corruptedCount ex_nacked_twice = 2"
    by (simp add: corruptedCount_def ex_nacked_twice_def RecordTimer_def IncCounter_def
        AddCounter_def ex_metrics_def)
  show ?thesis
    using 1 3 corruptedCount_ex_pending ex_noid_request_key [of ex_pending]
      ex_noid_request_docID [of ex_pending] ex_partial_response_index(2)
    by simp
qed

end
